theory Spec2Isabelle
  imports Main "HOL-Library.Word" "HOL-Library.AList"
begin

section \<open>Memory model\<close>

text \<open>
  The cache of \<^verbatim>\<open>src/main.cpp\<close> is a hash map from keys to raw pointers into a
  doubly linked list with two sentinel nodes.  The list nodes live on the C++ heap and are
  shared between the map and the list, so the model keeps an explicit store: a pointer is
  \<open>Null\<close> or an address, the store maps addresses to nodes, and every dereference of a
  null or a released pointer (undefined behaviour in C++) is a \<open>fault\<close> value.
  \<^verbatim>\<open>int\<close> is a 32-bit two's complement word.
\<close>

type_synonym i32 = "32 word"

datatype ptr = Null | Ptr nat

datatype fault = Null_Dereference | Invalid_Pointer

record node =
  node_key :: i32
  node_value :: i32
  node_prev :: ptr
  node_next :: ptr

text \<open>The store is the sequence of cells handed out so far: an address is an index into
  it, \<^verbatim>\<open>new\<close> appends a cell (so it never returns an address that is still live), and
  a released cell is \<open>None\<close>.\<close>

type_synonym memory = "node option list"

definition and_then :: "fault + 'a \<Rightarrow> ('a \<Rightarrow> fault + 'b) \<Rightarrow> fault + 'b" where
  "and_then m f = (case m of Inl e \<Rightarrow> Inl e | Inr x \<Rightarrow> f x)"

fun load :: "memory \<Rightarrow> ptr \<Rightarrow> fault + node" where
  "load h Null = Inl Null_Dereference"
| "load h (Ptr a) =
     (if a < length h then
        (case h ! a of None \<Rightarrow> Inl Invalid_Pointer | Some n \<Rightarrow> Inr n)
      else Inl Invalid_Pointer)"

fun store :: "ptr \<Rightarrow> node \<Rightarrow> memory \<Rightarrow> memory" where
  "store Null n h = h"
| "store (Ptr a) n h = h[a := Some n]"

text \<open>Field reads \<^verbatim>\<open>p->f\<close> and field writes \<^verbatim>\<open>p->f = x\<close>.\<close>

definition get_key :: "ptr \<Rightarrow> memory \<Rightarrow> fault + i32" where
  "get_key p h = and_then (load h p) (\<lambda>n. Inr (node_key n))"

definition get_value :: "ptr \<Rightarrow> memory \<Rightarrow> fault + i32" where
  "get_value p h = and_then (load h p) (\<lambda>n. Inr (node_value n))"

definition get_prev :: "ptr \<Rightarrow> memory \<Rightarrow> fault + ptr" where
  "get_prev p h = and_then (load h p) (\<lambda>n. Inr (node_prev n))"

definition get_next :: "ptr \<Rightarrow> memory \<Rightarrow> fault + ptr" where
  "get_next p h = and_then (load h p) (\<lambda>n. Inr (node_next n))"

definition set_value :: "ptr \<Rightarrow> i32 \<Rightarrow> memory \<Rightarrow> fault + memory" where
  "set_value p v h = and_then (load h p) (\<lambda>n. Inr (store p (n\<lparr>node_value := v\<rparr>) h))"

definition set_prev :: "ptr \<Rightarrow> ptr \<Rightarrow> memory \<Rightarrow> fault + memory" where
  "set_prev p q h = and_then (load h p) (\<lambda>n. Inr (store p (n\<lparr>node_prev := q\<rparr>) h))"

definition set_next :: "ptr \<Rightarrow> ptr \<Rightarrow> memory \<Rightarrow> fault + memory" where
  "set_next p q h = and_then (load h p) (\<lambda>n. Inr (store p (n\<lparr>node_next := q\<rparr>) h))"

text \<open>\<^verbatim>\<open>new node(k, v)\<close>: the constructor of lines 13-18 in a new cell.\<close>

definition new_node :: "i32 \<Rightarrow> i32 \<Rightarrow> memory \<Rightarrow> ptr \<times> memory" where
  "new_node k v h =
     (Ptr (length h),
      h @ [Some \<lparr>node_key = k, node_value = v, node_prev = Null, node_next = Null\<rparr>])"

text \<open>\<^verbatim>\<open>delete p\<close>: deleting the null pointer does nothing; deleting a pointer that
  is not live is a fault.\<close>

fun delete_node :: "ptr \<Rightarrow> memory \<Rightarrow> fault + memory" where
  "delete_node Null h = Inr h"
| "delete_node (Ptr a) h =
     and_then (load h (Ptr a)) (\<lambda>n. Inr (h[a := None]))"

section \<open>The doubly linked list (lines 21-64)\<close>

record double_linked_list =
  head :: ptr
  tail :: ptr

definition double_linked_list_ctor :: "memory \<Rightarrow> fault + (double_linked_list \<times> memory)" where
  "double_linked_list_ctor h =
     (case new_node (- 1) (- 1) h of (hd_p, h1) \<Rightarrow>
      case new_node (- 1) (- 1) h1 of (tl_p, h2) \<Rightarrow>
        and_then (set_next hd_p tl_p h2) (\<lambda>h3.
        and_then (set_prev tl_p hd_p h3) (\<lambda>h4.
          Inr (\<lparr>head = hd_p, tail = tl_p\<rparr>, h4))))"

definition remove_node :: "ptr \<Rightarrow> memory \<Rightarrow> fault + memory" where
  "remove_node temp h =
     and_then (get_prev temp h) (\<lambda>before.
     and_then (get_next temp h) (\<lambda>after.
     and_then (set_next before after h) (\<lambda>h1.
       set_prev after before h1)))"

definition add_first :: "double_linked_list \<Rightarrow> ptr \<Rightarrow> memory \<Rightarrow> fault + memory" where
  "add_first l temp h =
     and_then (get_next (head l) h) (\<lambda>after_head.
     and_then (set_prev temp (head l) h) (\<lambda>h1.
     and_then (set_next temp after_head h1) (\<lambda>h2.
     and_then (set_next (head l) temp h2) (\<lambda>h3.
       set_prev after_head temp h3))))"

definition move_to_front :: "double_linked_list \<Rightarrow> ptr \<Rightarrow> memory \<Rightarrow> fault + memory" where
  "move_to_front l temp h = and_then (remove_node temp h) (add_first l temp)"

definition remove_last :: "double_linked_list \<Rightarrow> memory \<Rightarrow> fault + (ptr \<times> memory)" where
  "remove_last l h =
     and_then (get_next (head l) h) (\<lambda>first.
       if first = tail l then Inr (Null, h)
       else and_then (get_prev (tail l) h) (\<lambda>last.
            and_then (remove_node last h) (\<lambda>h1. Inr (last, h1))))"

section \<open>The cache (lines 66-120)\<close>

text \<open>
  \<^verbatim>\<open>unordered_map<int, node*>\<close> is an association list with one pair per key:
  \<^verbatim>\<open>find\<close> is \<open>map_of\<close>, \<^verbatim>\<open>size()\<close> is \<open>length\<close>, \<^verbatim>\<open>erase\<close> is
  \<open>AList.delete\<close> and \<^verbatim>\<open>m[k] = p\<close> is \<open>AList.update\<close>.
\<close>

record lru_cache =
  capacity :: i32
  cacheMap :: "(i32 \<times> ptr) list"
  cacheList :: double_linked_list
  heap :: memory

text \<open>
  Line 101 compares \<^verbatim>\<open>cacheMap.size()\<close>, a \<^verbatim>\<open>size_t\<close>, with the \<^verbatim>\<open>int\<close>
  capacity: the usual arithmetic conversions turn the capacity into a 64-bit unsigned
  value, that is its value modulo \<open>2 ^ 64\<close>, so a negative capacity becomes a huge bound.
\<close>

definition size_t_of_int :: "i32 \<Rightarrow> int" where
  "size_t_of_int c = sint c mod 2 ^ 64"

definition LRU_CACHE :: "i32 \<Rightarrow> fault + lru_cache" where
  "LRU_CACHE cap =
     and_then (double_linked_list_ctor []) (\<lambda>(l, h).
       Inr \<lparr>capacity = cap, cacheMap = [], cacheList = l, heap = h\<rparr>)"

definition get :: "i32 \<Rightarrow> lru_cache \<Rightarrow> fault + (i32 \<times> lru_cache)" where
  "get k s =
     (case map_of (cacheMap s) k of
        None \<Rightarrow> Inr (- 1, s)
      | Some targetNode \<Rightarrow>
          and_then (move_to_front (cacheList s) targetNode (heap s)) (\<lambda>h1.
          and_then (get_value targetNode h1) (\<lambda>v.
            Inr (v, s\<lparr>heap := h1\<rparr>))))"

text \<open>Lines 103-109, the eviction block of \<^verbatim>\<open>put\<close>: unlink the node before the tail
  sentinel, erase its key from the map, release it.\<close>

definition put_evict :: "lru_cache \<Rightarrow> fault + lru_cache" where
  "put_evict s =
     and_then (remove_last (cacheList s) (heap s)) (\<lambda>(lruNode, h1).
     and_then (get_key lruNode h1) (\<lambda>lruKey.
     and_then (delete_node lruNode h1) (\<lambda>h2.
       Inr (s\<lparr>cacheMap := AList.delete lruKey (cacheMap s), heap := h2\<rparr>))))"

text \<open>Lines 113-117, the insertion block of \<^verbatim>\<open>put\<close>: allocate the node, link it
  behind the head sentinel, enter it into the map.\<close>

definition put_insert :: "i32 \<Rightarrow> i32 \<Rightarrow> lru_cache \<Rightarrow> fault + lru_cache" where
  "put_insert k v s =
     (case new_node k v (heap s) of (newNode, h1) \<Rightarrow>
        and_then (add_first (cacheList s) newNode h1) (\<lambda>h2.
          Inr (s\<lparr>cacheMap := AList.update k newNode (cacheMap s), heap := h2\<rparr>)))"

definition put :: "i32 \<Rightarrow> i32 \<Rightarrow> lru_cache \<Rightarrow> fault + lru_cache" where
  "put k v s =
     (case map_of (cacheMap s) k of
        Some existingNode \<Rightarrow>
          and_then (set_value existingNode v (heap s)) (\<lambda>h1.
          and_then (move_to_front (cacheList s) existingNode h1) (\<lambda>h2.
            Inr (s\<lparr>heap := h2\<rparr>)))
      | None \<Rightarrow>
          and_then
            (if size_t_of_int (capacity s) \<le> int (length (cacheMap s)) then put_evict s
             else Inr s)
            (put_insert k v))"

text \<open>A caller's sequence of operations; \<open>run\<close> stops at the first fault.\<close>

datatype operation = Get i32 | Put i32 i32

fun exec :: "operation \<Rightarrow> lru_cache \<Rightarrow> fault + lru_cache" where
  "exec (Get k) s = and_then (get k s) (\<lambda>(v, s'). Inr s')"
| "exec (Put k v) s = put k v s"

fun run :: "operation list \<Rightarrow> lru_cache \<Rightarrow> fault + lru_cache" where
  "run [] s = Inr s"
| "run (x # xs) s = and_then (exec x s) (run xs)"

section \<open>What the claims are stated in\<close>

text \<open>A whole use of the cache: construct it, then run the caller's operations.\<close>

definition session :: "i32 \<Rightarrow> operation list \<Rightarrow> fault + lru_cache" where
  "session cap ops = and_then (LRU_CACHE cap) (run ops)"

text \<open>The test \<^verbatim>\<open>cacheMap.find(key) != cacheMap.end()\<close> of lines 78 and 93.\<close>

definition present :: "i32 \<Rightarrow> lru_cache \<Rightarrow> bool" where
  "present k s = (map_of (cacheMap s) k \<noteq> None)"

text \<open>
  \<open>links h ps\<close>: in the store \<open>h\<close> the pointers \<open>ps\<close> form a doubly linked chain, each
  node's \<^verbatim>\<open>next\<close> being its successor in \<open>ps\<close> and each node's \<^verbatim>\<open>prev\<close> its
  predecessor.  \<open>entry h p\<close> is the key and value held by the live node at \<open>p\<close>.
\<close>

fun links :: "memory \<Rightarrow> ptr list \<Rightarrow> bool" where
  "links h [] = True"
| "links h [p] = True"
| "links h (p # q # ps) =
     (get_next p h = Inr q \<and> get_prev q h = Inr p \<and> links h (q # ps))"

definition entry :: "memory \<Rightarrow> ptr \<Rightarrow> (i32 \<times> i32) option" where
  "entry h p = (case load h p of Inl e \<Rightarrow> None | Inr n \<Rightarrow> Some (node_key n, node_value n))"

text \<open>
  \<open>list_inv h l as\<close>: the recency list \<open>l\<close> holds exactly the nodes \<open>as\<close>, most recently
  used first, between its two sentinels, and no node occurs twice.
\<close>

definition nodes :: "double_linked_list \<Rightarrow> ptr list \<Rightarrow> ptr list" where
  "nodes l as = head l # as @ [tail l]"

definition list_inv :: "memory \<Rightarrow> double_linked_list \<Rightarrow> ptr list \<Rightarrow> bool" where
  "list_inv h l as = (links h (nodes l as) \<and> distinct (nodes l as))"

text \<open>
  \<open>cache_inv s es\<close>: the cache \<open>s\<close> is well formed and \<open>es\<close> is its content, one triple
  (node, key, value) per entry from the most to the least recently used: the list links
  exactly these nodes, each node holds its key and value, no key occurs twice, and the map
  has exactly one pair per entry, sending the entry's key to the entry's node.
\<close>

definition cache_inv :: "lru_cache \<Rightarrow> (ptr \<times> i32 \<times> i32) list \<Rightarrow> bool" where
  "cache_inv s es =
     (list_inv (heap s) (cacheList s) (map fst es) \<and>
      list_all (\<lambda>e. entry (heap s) (fst e) = Some (snd e)) es \<and>
      distinct (map (fst \<circ> snd) es) \<and>
      distinct (map fst (cacheMap s)) \<and>
      set (cacheMap s) = set (map (\<lambda>e. (fst (snd e), fst e)) es))"

text \<open>
  The effect of the operations on the content alone, as a list of (key, value) pairs in
  recency order; \<open>exec_refines\<close> below proves that the pointer code computes it.
\<close>

definition touch :: "i32 \<Rightarrow> i32 \<Rightarrow> (i32 \<times> i32) list \<Rightarrow> (i32 \<times> i32) list" where
  "touch k v kvs = (k, v) # filter (\<lambda>e. fst e \<noteq> k) kvs"

fun model_exec :: "i32 \<Rightarrow> operation \<Rightarrow> (i32 \<times> i32) list \<Rightarrow> (i32 \<times> i32) list" where
  "model_exec cap (Get k) kvs =
     (case map_of kvs k of None \<Rightarrow> kvs | Some v \<Rightarrow> touch k v kvs)"
| "model_exec cap (Put k v) kvs =
     (if map_of kvs k \<noteq> None then touch k v kvs
      else if size_t_of_int cap \<le> int (length kvs) then (k, v) # butlast kvs
      else (k, v) # kvs)"

fun model_run :: "i32 \<Rightarrow> operation list \<Rightarrow> (i32 \<times> i32) list \<Rightarrow> (i32 \<times> i32) list" where
  "model_run cap [] kvs = kvs"
| "model_run cap (a # as) kvs = model_run cap as (model_exec cap a kvs)"

text \<open>
  An operation accesses key \<open>k\<close> when it is a \<^verbatim>\<open>put\<close> of \<open>k\<close> or a \<^verbatim>\<open>get\<close> of \<open>k\<close>
  that hits.  \<open>untouched k s ops\<close>: run from \<open>s\<close>, no operation of \<open>ops\<close> accesses \<open>k\<close>.
\<close>

fun accesses :: "i32 \<Rightarrow> lru_cache \<Rightarrow> operation \<Rightarrow> bool" where
  "accesses k s (Get k') = (k' = k \<and> present k s)"
| "accesses k s (Put k' v) = (k' = k)"

fun untouched :: "i32 \<Rightarrow> lru_cache \<Rightarrow> operation list \<Rightarrow> bool" where
  "untouched k s [] = True"
| "untouched k s (a # as) =
     (\<not> accesses k s a \<and> (case exec a s of Inl e \<Rightarrow> True | Inr s' \<Rightarrow> untouched k s' as))"

text \<open>\<open>ahead K J ks\<close>: if \<open>J\<close> is in the recency order \<open>ks\<close>, then \<open>K\<close> is there before it.\<close>

definition ahead :: "i32 \<Rightarrow> i32 \<Rightarrow> i32 list \<Rightarrow> bool" where
  "ahead K J ks = (J \<in> set ks \<longrightarrow> K \<in> set (takeWhile (\<lambda>x. x \<noteq> J) ks))"

text \<open>
  Two states of the walkthrough in \<^verbatim>\<open>main\<close> (capacity 2): after the two puts of lines
  129-130, and after the \<^verbatim>\<open>get(1)\<close> of line 132.
\<close>

definition lru_after_130 :: lru_cache where
  "lru_after_130 =
     \<lparr>capacity = 2, cacheMap = [(1, Ptr 2), (2, Ptr 3)],
      cacheList = \<lparr>head = Ptr 0, tail = Ptr 1\<rparr>,
      heap =
        [Some \<lparr>node_key = - 1, node_value = - 1, node_prev = Null, node_next = Ptr 3\<rparr>,
         Some \<lparr>node_key = - 1, node_value = - 1, node_prev = Ptr 2, node_next = Null\<rparr>,
         Some \<lparr>node_key = 1, node_value = 10, node_prev = Ptr 3, node_next = Ptr 1\<rparr>,
         Some \<lparr>node_key = 2, node_value = 20, node_prev = Ptr 0, node_next = Ptr 2\<rparr>]\<rparr>"

definition lru_after_132 :: lru_cache where
  "lru_after_132 =
     \<lparr>capacity = 2, cacheMap = [(1, Ptr 2), (2, Ptr 3)],
      cacheList = \<lparr>head = Ptr 0, tail = Ptr 1\<rparr>,
      heap =
        [Some \<lparr>node_key = - 1, node_value = - 1, node_prev = Null, node_next = Ptr 2\<rparr>,
         Some \<lparr>node_key = - 1, node_value = - 1, node_prev = Ptr 3, node_next = Null\<rparr>,
         Some \<lparr>node_key = 1, node_value = 10, node_prev = Ptr 0, node_next = Ptr 3\<rparr>,
         Some \<lparr>node_key = 2, node_value = 20, node_prev = Ptr 2, node_next = Ptr 1\<rparr>]\<rparr>"

section \<open>Frame and correctness lemmas\<close>

lemma and_then_Inr [simp]: "and_then (Inr x) f = f x"
  by (simp add: and_then_def)

lemma and_then_Inl [simp]: "and_then (Inl e) f = Inl e"
  by (simp add: and_then_def)

lemma load_store:
  "load h p = Inr n \<Longrightarrow> load (store p n' h) q = (if q = p then Inr n' else load h q)"
  by (cases p; cases q) (auto split: if_splits option.splits simp: nth_list_update)

lemma entry_valid: "entry h p = Some kv \<Longrightarrow> \<exists>n. load h p = Inr n \<and> node_key n = fst kv \<and> node_value n = snd kv"
  by (auto simp: entry_def split: sum.splits)

lemma set_next_spec:
  assumes "entry h p = Some kv"
  shows "\<exists>h'. set_next p q h = Inr h' \<and>
          (\<forall>r. get_next r h' = (if r = p then Inr q else get_next r h)) \<and>
          (\<forall>r. get_prev r h' = get_prev r h) \<and>
          (\<forall>r. entry h' r = entry h r) \<and> length h' = length h"
proof -
  from assms obtain n where n: "load h p = Inr n"
    by (auto dest: entry_valid)
  have "length (store p (n\<lparr>node_next := q\<rparr>) h) = length h"
    by (cases p) simp_all
  with n show ?thesis
    by (auto simp: set_next_def get_next_def get_prev_def entry_def load_store)
qed

lemma set_prev_spec:
  assumes "entry h p = Some kv"
  shows "\<exists>h'. set_prev p q h = Inr h' \<and>
          (\<forall>r. get_prev r h' = (if r = p then Inr q else get_prev r h)) \<and>
          (\<forall>r. get_next r h' = get_next r h) \<and>
          (\<forall>r. entry h' r = entry h r) \<and> length h' = length h"
proof -
  from assms obtain n where n: "load h p = Inr n"
    by (auto dest: entry_valid)
  have "length (store p (n\<lparr>node_prev := q\<rparr>) h) = length h"
    by (cases p) simp_all
  with n show ?thesis
    by (auto simp: set_prev_def get_next_def get_prev_def entry_def load_store)
qed

lemma set_value_spec:
  assumes "entry h p = Some (k, v0)"
  shows "\<exists>h'. set_value p v h = Inr h' \<and>
          (\<forall>r. get_prev r h' = get_prev r h) \<and>
          (\<forall>r. get_next r h' = get_next r h) \<and>
          (\<forall>r. entry h' r = (if r = p then Some (k, v) else entry h r)) \<and> length h' = length h"
proof -
  from assms obtain n where n: "load h p = Inr n" "node_key n = k"
    by (auto dest: entry_valid)
  have "length (store p (n\<lparr>node_value := v\<rparr>) h) = length h"
    by (cases p) simp_all
  with n show ?thesis
    by (auto simp: set_value_def get_next_def get_prev_def entry_def load_store)
qed

lemma get_next_valid: "get_next p h = Inr q \<Longrightarrow> \<exists>kv. entry h p = Some kv"
  by (auto simp: get_next_def entry_def and_then_def split: sum.splits)

lemma get_prev_valid: "get_prev p h = Inr q \<Longrightarrow> \<exists>kv. entry h p = Some kv"
  by (auto simp: get_prev_def entry_def and_then_def split: sum.splits)

lemma remove_node_spec:
  assumes "get_prev a h = Inr b" and "get_next a h = Inr c"
    and "entry h b = Some kb" and "entry h c = Some kc"
  shows "\<exists>h'. remove_node a h = Inr h' \<and>
          (\<forall>r. get_next r h' = (if r = b then Inr c else get_next r h)) \<and>
          (\<forall>r. get_prev r h' = (if r = c then Inr b else get_prev r h)) \<and>
          (\<forall>r. entry h' r = entry h r) \<and> length h' = length h"
proof -
  from set_next_spec [OF assms(3), of c] obtain h1 where h1:
    "set_next b c h = Inr h1" "\<forall>r. get_next r h1 = (if r = b then Inr c else get_next r h)"
    "\<forall>r. get_prev r h1 = get_prev r h" "\<forall>r. entry h1 r = entry h r" "length h1 = length h"
    by blast
  from assms(4) h1(4) have "entry h1 c = Some kc" by simp
  from set_prev_spec [OF this, of b] obtain h2 where h2:
    "set_prev c b h1 = Inr h2" "\<forall>r. get_prev r h2 = (if r = c then Inr b else get_prev r h1)"
    "\<forall>r. get_next r h2 = get_next r h1" "\<forall>r. entry h2 r = entry h1 r" "length h2 = length h1"
    by blast
  have "remove_node a h = Inr h2"
    using assms(1,2) h1(1) h2(1) by (simp add: remove_node_def)
  with h1 h2 show ?thesis by simp
qed

lemma add_first_spec:
  assumes "get_next (head l) h = Inr c"
    and "entry h t = Some kt" and "entry h c = Some kc"
  shows "\<exists>h'. add_first l t h = Inr h' \<and>
          (\<forall>r. get_next r h' = (if r = head l then Inr t else if r = t then Inr c else get_next r h)) \<and>
          (\<forall>r. get_prev r h' = (if r = c then Inr t else if r = t then Inr (head l) else get_prev r h)) \<and>
          (\<forall>r. entry h' r = entry h r) \<and> length h' = length h"
proof -
  from get_next_valid [OF assms(1)] obtain kh where kh: "entry h (head l) = Some kh" ..
  from set_prev_spec [OF assms(2), of "head l"] obtain h1 where h1:
    "set_prev t (head l) h = Inr h1"
    "\<forall>r. get_prev r h1 = (if r = t then Inr (head l) else get_prev r h)"
    "\<forall>r. get_next r h1 = get_next r h" "\<forall>r. entry h1 r = entry h r" "length h1 = length h"
    by blast
  from assms(2) h1(4) have "entry h1 t = Some kt" by simp
  from set_next_spec [OF this, of c] obtain h2 where h2:
    "set_next t c h1 = Inr h2"
    "\<forall>r. get_next r h2 = (if r = t then Inr c else get_next r h1)"
    "\<forall>r. get_prev r h2 = get_prev r h1" "\<forall>r. entry h2 r = entry h1 r" "length h2 = length h1"
    by blast
  from kh h1(4) h2(4) have "entry h2 (head l) = Some kh" by simp
  from set_next_spec [OF this, of t] obtain h3 where h3:
    "set_next (head l) t h2 = Inr h3"
    "\<forall>r. get_next r h3 = (if r = head l then Inr t else get_next r h2)"
    "\<forall>r. get_prev r h3 = get_prev r h2" "\<forall>r. entry h3 r = entry h2 r" "length h3 = length h2"
    by blast
  from assms(3) h1(4) h2(4) h3(4) have "entry h3 c = Some kc" by simp
  from set_prev_spec [OF this, of t] obtain h4 where h4:
    "set_prev c t h3 = Inr h4"
    "\<forall>r. get_prev r h4 = (if r = c then Inr t else get_prev r h3)"
    "\<forall>r. get_next r h4 = get_next r h3" "\<forall>r. entry h4 r = entry h3 r" "length h4 = length h3"
    by blast
  have "add_first l t h = Inr h4"
    using assms(1) h1(1) h2(1) h3(1) h4(1) by (simp add: add_first_def)
  with h1 h2 h3 h4 show ?thesis by simp
qed

lemma links_cong:
  "\<forall>p \<in> set (butlast ps). get_next p h' = get_next p h \<Longrightarrow>
   \<forall>p \<in> set (tl ps). get_prev p h' = get_prev p h \<Longrightarrow> links h' ps = links h ps"
  by (induction h ps rule: links.induct) auto

lemma links_append:
  "links h (xs @ y # ys) = (links h (xs @ [y]) \<and> links h (y # ys))"
  by (induction h xs rule: links.induct) auto

lemma links_valid:
  "links h ps \<Longrightarrow> 2 \<le> length ps \<Longrightarrow> p \<in> set ps \<Longrightarrow> \<exists>kv. entry h p = Some kv"
proof (induction h ps rule: links.induct)
  case (3 h a b ps)
  show ?case
  proof (cases "p = a")
    case True
    with 3(2) show ?thesis by (auto dest: get_next_valid)
  next
    case False
    show ?thesis
    proof (cases ps)
      case Nil
      with False 3(2,4) show ?thesis by (auto dest: get_prev_valid)
    next
      case (Cons c cs)
      with False 3 show ?thesis by auto
    qed
  qed
qed simp_all

lemma list_inv_valid:
  "list_inv h l as \<Longrightarrow> p \<in> set (nodes l as) \<Longrightarrow> \<exists>kv. entry h p = Some kv"
  unfolding list_inv_def by (rule links_valid) (auto simp: nodes_def)

lemma links_remove_middle:
  assumes l: "links h (us @ b # a # c # vs)" and d: "distinct (us @ b # a # c # vs)"
  shows "\<exists>h'. remove_node a h = Inr h' \<and> links h' (us @ b # c # vs) \<and>
           (\<forall>r. entry h' r = entry h r) \<and> length h' = length h"
proof -
  from l have l1: "links h (us @ [b])" and l2: "links h (b # a # c # vs)"
    using links_append [of h us b "a # c # vs"] by simp_all
  from l2 have ba: "get_next b h = Inr a" "get_prev a h = Inr b"
    and ac: "get_next a h = Inr c" "get_prev c h = Inr a" and l3: "links h (c # vs)"
    by simp_all
  from ba(1) obtain kb where kb: "entry h b = Some kb" by (auto dest: get_next_valid)
  from ac(2) obtain kc where kc: "entry h c = Some kc" by (auto dest: get_prev_valid)
  from remove_node_spec [OF ba(2) ac(1) kb kc] obtain h' where h':
    "remove_node a h = Inr h'"
    "\<forall>r. get_next r h' = (if r = b then Inr c else get_next r h)"
    "\<forall>r. get_prev r h' = (if r = c then Inr b else get_prev r h)"
    "\<forall>r. entry h' r = entry h r" "length h' = length h"
    by blast
  have "links h' (us @ [b]) = links h (us @ [b])"
    using d h'(2,3) by (intro links_cong) (auto dest: list.set_sel(2) [rotated])
  moreover have "links h' (c # vs) = links h (c # vs)"
    using d h'(2,3) by (intro links_cong) (auto dest: in_set_butlastD)
  ultimately have "links h' (us @ b # c # vs)"
    using l1 l3 h'(2,3) links_append [of h' us b "c # vs"] by simp
  with h' show ?thesis by blast
qed

lemma remove_node_list:
  assumes "list_inv h l (xs @ a # ys)"
  shows "\<exists>h'. remove_node a h = Inr h' \<and> list_inv h' l (xs @ ys) \<and>
           (\<forall>r. entry h' r = entry h r) \<and> length h' = length h"
proof -
  obtain us b where ub: "head l # xs = us @ [b]"
    by (metis append_butlast_last_id list.distinct(1))
  obtain c vs where cv: "ys @ [tail l] = c # vs"
    by (cases ys) auto
  have full: "nodes l (xs @ a # ys) = us @ b # a # c # vs"
    using ub cv by (simp add: nodes_def)
  have rest: "nodes l (xs @ ys) = us @ b # c # vs"
    using ub cv by (simp add: nodes_def)
  from assms full have "links h (us @ b # a # c # vs)" "distinct (us @ b # a # c # vs)"
    by (simp_all add: list_inv_def)
  from links_remove_middle [OF this] obtain h' where h':
    "remove_node a h = Inr h'" "links h' (us @ b # c # vs)"
    "\<forall>r. entry h' r = entry h r" "length h' = length h"
    by blast
  moreover have "distinct (nodes l (xs @ ys))"
    using assms by (auto simp: list_inv_def nodes_def)
  ultimately show ?thesis
    using rest by (auto simp: list_inv_def)
qed

lemma add_first_list:
  assumes inv: "list_inv h l as" and t: "entry h t = Some kt" and new: "t \<notin> set (nodes l as)"
  shows "\<exists>h'. add_first l t h = Inr h' \<and> list_inv h' l (t # as) \<and>
           (\<forall>r. entry h' r = entry h r) \<and> length h' = length h"
proof -
  obtain c vs where cv: "as @ [tail l] = c # vs"
    by (cases as) auto
  then have full: "nodes l as = head l # c # vs" and full': "nodes l (t # as) = head l # t # c # vs"
    by (simp_all add: nodes_def)
  from inv full have l: "links h (head l # c # vs)" and d: "distinct (head l # c # vs)"
    by (simp_all add: list_inv_def)
  from l have hc: "get_next (head l) h = Inr c" "get_prev c h = Inr (head l)"
    and l3: "links h (c # vs)" by simp_all
  from hc(2) obtain kc where kc: "entry h c = Some kc" by (auto dest: get_prev_valid)
  from add_first_spec [OF hc(1) t kc] obtain h' where h':
    "add_first l t h = Inr h'"
    "\<forall>r. get_next r h' = (if r = head l then Inr t else if r = t then Inr c else get_next r h)"
    "\<forall>r. get_prev r h' = (if r = c then Inr t else if r = t then Inr (head l) else get_prev r h)"
    "\<forall>r. entry h' r = entry h r" "length h' = length h"
    by blast
  from new full have neq: "t \<noteq> head l" "t \<noteq> c" "t \<notin> set vs" by auto
  have "links h' (c # vs) = links h (c # vs)"
    using d neq h'(2,3) by (intro links_cong) (auto dest: in_set_butlastD)
  with l3 h'(2,3) neq d have "links h' (head l # t # c # vs)" by auto
  moreover from d neq have "distinct (head l # t # c # vs)" by auto
  ultimately show ?thesis
    using h' full' by (auto simp: list_inv_def)
qed

lemma move_to_front_list:
  assumes "list_inv h l (xs @ a # ys)"
  shows "\<exists>h'. move_to_front l a h = Inr h' \<and> list_inv h' l (a # xs @ ys) \<and>
           (\<forall>r. entry h' r = entry h r) \<and> length h' = length h"
proof -
  from remove_node_list [OF assms] obtain h1 where h1:
    "remove_node a h = Inr h1" "list_inv h1 l (xs @ ys)"
    "\<forall>r. entry h1 r = entry h r" "length h1 = length h"
    by blast
  from list_inv_valid [OF assms, of a] obtain ka where "entry h a = Some ka"
    by (auto simp: nodes_def)
  with h1(3) have a: "entry h1 a = Some ka" by simp
  from assms have "a \<notin> set (nodes l (xs @ ys))"
    by (auto simp: list_inv_def nodes_def)
  from add_first_list [OF h1(2) a this] obtain h2 where h2:
    "add_first l a h1 = Inr h2" "list_inv h2 l (a # xs @ ys)"
    "\<forall>r. entry h2 r = entry h1 r" "length h2 = length h1"
    by blast
  with h1 show ?thesis by (simp add: move_to_front_def)
qed

lemma remove_last_empty:
  assumes "list_inv h l []"
  shows "remove_last l h = Inr (Null, h)"
  using assms by (simp add: list_inv_def nodes_def remove_last_def)

lemma remove_last_list:
  assumes "list_inv h l (xs @ [a])"
  shows "\<exists>h'. remove_last l h = Inr (a, h') \<and> list_inv h' l xs \<and>
           (\<forall>r. entry h' r = entry h r) \<and> length h' = length h"
proof -
  obtain c vs where cv: "xs @ [a] = c # vs" by (cases xs) auto
  with assms have "get_next (head l) h = Inr c" "c \<noteq> tail l"
    by (auto simp: list_inv_def nodes_def)
  moreover from assms have "get_prev (tail l) h = Inr a"
    using links_append [of h "head l # xs" a "[tail l]"] by (simp add: list_inv_def nodes_def)
  moreover from remove_node_list [of h l xs a "[]"] assms obtain h' where
    "remove_node a h = Inr h'" "list_inv h' l xs" "\<forall>r. entry h' r = entry h r" "length h' = length h"
    by auto
  ultimately show ?thesis by (simp add: remove_last_def)
qed

lemma list_inv_frame:
  assumes "list_inv h l as"
    and "\<forall>p \<in> set (nodes l as). get_next p h' = get_next p h \<and> get_prev p h' = get_prev p h"
  shows "list_inv h' l as"
proof -
  have "links h' (nodes l as) = links h (nodes l as)"
  proof (rule links_cong)
    show "\<forall>p\<in>set (butlast (nodes l as)). get_next p h' = get_next p h"
      using assms(2) by (auto dest: in_set_butlastD)
    show "\<forall>p\<in>set (tl (nodes l as)). get_prev p h' = get_prev p h"
      using assms(2) by (auto simp: nodes_def)
  qed
  with assms(1) show ?thesis by (simp add: list_inv_def)
qed

lemma entry_fresh: "entry h (Ptr (length h)) = None"
  by (simp add: entry_def)

lemma new_node_spec:
  "\<exists>h'. new_node k v h = (Ptr (length h), h') \<and>
     (\<forall>r. entry h' r = (if r = Ptr (length h) then Some (k, v) else entry h r)) \<and>
     (\<forall>r. r \<noteq> Ptr (length h) \<longrightarrow> get_next r h' = get_next r h \<and> get_prev r h' = get_prev r h) \<and>
     get_next (Ptr (length h)) h' = Inr Null \<and> get_prev (Ptr (length h)) h' = Inr Null \<and>
     length h' = Suc (length h)"
proof -
  let ?h' = "snd (new_node k v h)"
  have other: "load ?h' r = load h r" if "r \<noteq> Ptr (length h)" for r
    using that by (cases r) (auto simp: new_node_def nth_append)
  have new: "load ?h' (Ptr (length h)) =
      Inr \<lparr>node_key = k, node_value = v, node_prev = Null, node_next = Null\<rparr>"
    by (simp add: new_node_def)
  have "new_node k v h = (Ptr (length h), ?h')" "length ?h' = Suc (length h)"
    by (simp_all add: new_node_def)
  with other new show ?thesis
    by (intro exI [of _ ?h']) (simp add: entry_def get_next_def get_prev_def)
qed

lemma delete_node_spec:
  assumes "entry h a = Some kv"
  shows "\<exists>h'. delete_node a h = Inr h' \<and>
     (\<forall>r. entry h' r = (if r = a then None else entry h r)) \<and>
     (\<forall>r. r \<noteq> a \<longrightarrow> get_next r h' = get_next r h \<and> get_prev r h' = get_prev r h) \<and>
     length h' = length h"
proof (cases a)
  case Null
  with assms show ?thesis by (simp add: entry_def)
next
  case (Ptr x)
  from assms obtain n where n: "load h (Ptr x) = Inr n"
    unfolding Ptr by (auto dest: entry_valid)
  let ?h' = "h[x := None]"
  have "load ?h' r = load h r" if "r \<noteq> Ptr x" for r
    using that by (cases r) (auto simp: nth_list_update)
  moreover have "load ?h' (Ptr x) = Inl Invalid_Pointer" by simp
  ultimately show ?thesis
    using n unfolding Ptr by (auto simp: entry_def get_next_def get_prev_def)
qed

lemma cache_inv_find:
  assumes "cache_inv s es"
  shows "map_of (cacheMap s) k = Some p \<longleftrightarrow> (\<exists>v. (p, k, v) \<in> set es)"
proof -
  from assms have "map_of (cacheMap s) k = Some p \<longleftrightarrow> (k, p) \<in> set (cacheMap s)"
    by (simp add: cache_inv_def)
  also from assms have "\<dots> \<longleftrightarrow> (\<exists>v. (p, k, v) \<in> set es)"
    by (force simp: cache_inv_def)
  finally show ?thesis .
qed

lemma cache_inv_absent:
  assumes "cache_inv s es"
  shows "map_of (cacheMap s) k = None \<longleftrightarrow> k \<notin> set (map (fst \<circ> snd) es)"
proof -
  have "map_of (cacheMap s) k = None \<longleftrightarrow> k \<notin> fst ` set (cacheMap s)"
    by (simp add: map_of_eq_None_iff)
  also from assms have "\<dots> \<longleftrightarrow> k \<notin> set (map (fst \<circ> snd) es)"
    by (force simp: cache_inv_def)
  finally show ?thesis .
qed

lemma cache_inv_size:
  assumes "cache_inv s es"
  shows "length (cacheMap s) = length es"
proof -
  from assms have d: "distinct (cacheMap s)"
    by (auto simp: cache_inv_def dest: distinct_map [THEN iffD1])
  from assms have "distinct (map (fst \<circ> snd) es)" by (simp add: cache_inv_def)
  then have "distinct (map (\<lambda>e. (fst (snd e), fst e)) es)"
    by (induction es) auto
  then have "card (set (map (\<lambda>e. (fst (snd e), fst e)) es)) = length es"
    using distinct_card by fastforce
  moreover from d have "card (set (cacheMap s)) = length (cacheMap s)"
    by (rule distinct_card)
  ultimately show ?thesis
    using assms by (simp add: cache_inv_def)
qed

lemma split_entry:
  assumes "cache_inv s es" and "(p, k, v) \<in> set es"
  shows "\<exists>xs ys. es = xs @ (p, k, v) # ys \<and> k \<notin> set (map (fst \<circ> snd) (xs @ ys)) \<and>
           p \<notin> set (map fst (xs @ ys))"
proof -
  from assms(2) obtain xs ys where es: "es = xs @ (p, k, v) # ys"
    by (auto simp: in_set_conv_decomp)
  from assms(1) have "distinct (map (fst \<circ> snd) es)" "distinct (map fst es)"
    by (simp_all add: cache_inv_def list_inv_def nodes_def)
  with es show ?thesis by auto
qed

lemma entry_get_value: "entry h p = Some (k, v) \<Longrightarrow> get_value p h = Inr v"
  by (auto simp: get_value_def dest: entry_valid)

lemma entry_get_key: "entry h p = Some (k, v) \<Longrightarrow> get_key p h = Inr k"
  by (auto simp: get_key_def dest: entry_valid)

lemma update_absent: "k \<notin> fst ` set al \<Longrightarrow> AList.update k v al = al @ [(k, v)]"
  by (induction al) auto

lemma get_miss: "map_of (cacheMap s) k = None \<Longrightarrow> get k s = Inr (- 1, s)"
  by (simp add: get_def)

lemma get_hit_inv:
  assumes inv: "cache_inv s (xs @ (p, k, v) # ys)"
  shows "\<exists>h'. get k s = Inr (v, s\<lparr>heap := h'\<rparr>) \<and>
           cache_inv (s\<lparr>heap := h'\<rparr>) ((p, k, v) # xs @ ys)"
proof -
  from cache_inv_find [OF inv, of k p] have f: "map_of (cacheMap s) k = Some p" by auto
  from inv have "list_inv (heap s) (cacheList s) (map fst xs @ p # map fst ys)"
    by (simp add: cache_inv_def)
  from move_to_front_list [OF this] obtain h' where h':
    "move_to_front (cacheList s) p (heap s) = Inr h'"
    "list_inv h' (cacheList s) (p # map fst xs @ map fst ys)"
    "\<forall>r. entry h' r = entry (heap s) r"
    by blast
  from inv h'(3) have "entry h' p = Some (k, v)" by (simp add: cache_inv_def)
  then have "get_value p h' = Inr v" by (rule entry_get_value)
  with f h'(1) have "get k s = Inr (v, s\<lparr>heap := h'\<rparr>)" by (simp add: get_def)
  moreover from inv h'(2,3) have "cache_inv (s\<lparr>heap := h'\<rparr>) ((p, k, v) # xs @ ys)"
    by (auto simp: cache_inv_def)
  ultimately show ?thesis by blast
qed

lemma put_hit_inv:
  assumes inv: "cache_inv s (xs @ (p, k, v0) # ys)"
  shows "\<exists>h'. put k v s = Inr (s\<lparr>heap := h'\<rparr>) \<and>
           cache_inv (s\<lparr>heap := h'\<rparr>) ((p, k, v) # xs @ ys)"
proof -
  from cache_inv_find [OF inv, of k p] have f: "map_of (cacheMap s) k = Some p" by auto
  from inv have e: "entry (heap s) p = Some (k, v0)" by (simp add: cache_inv_def)
  from set_value_spec [OF e, of v] obtain h1 where h1:
    "set_value p v (heap s) = Inr h1"
    "\<forall>r. get_prev r h1 = get_prev r (heap s)" "\<forall>r. get_next r h1 = get_next r (heap s)"
    "\<forall>r. entry h1 r = (if r = p then Some (k, v) else entry (heap s) r)"
    by blast
  from inv have "list_inv (heap s) (cacheList s) (map fst xs @ p # map fst ys)"
    by (simp add: cache_inv_def)
  with h1(2,3) have "list_inv h1 (cacheList s) (map fst xs @ p # map fst ys)"
    by (auto intro: list_inv_frame)
  from move_to_front_list [OF this] obtain h2 where h2:
    "move_to_front (cacheList s) p h1 = Inr h2"
    "list_inv h2 (cacheList s) (p # map fst xs @ map fst ys)"
    "\<forall>r. entry h2 r = entry h1 r"
    by blast
  from f h1(1) h2(1) have "put k v s = Inr (s\<lparr>heap := h2\<rparr>)" by (simp add: put_def)
  moreover from inv have "p \<notin> fst ` set xs" "p \<notin> fst ` set ys"
    by (auto simp: cache_inv_def list_inv_def nodes_def)
  with inv h1(4) h2(2,3) have "cache_inv (s\<lparr>heap := h2\<rparr>) ((p, k, v) # xs @ ys)"
    by (auto simp: cache_inv_def list_all_iff)
  ultimately show ?thesis by blast
qed

lemma put_insert_inv:
  assumes inv: "cache_inv s es" and new: "map_of (cacheMap s) k = None"
  shows "\<exists>s'. put_insert k v s = Inr s' \<and> capacity s' = capacity s \<and>
           cacheList s' = cacheList s \<and>
           cache_inv s' ((Ptr (length (heap s)), k, v) # es)"
proof -
  let ?p = "Ptr (length (heap s))" and ?l = "cacheList s"
  from new_node_spec [of k v "heap s"] obtain h1 where h1:
    "new_node k v (heap s) = (?p, h1)"
    "\<forall>r. entry h1 r = (if r = ?p then Some (k, v) else entry (heap s) r)"
    "\<forall>r. r \<noteq> ?p \<longrightarrow> get_next r h1 = get_next r (heap s) \<and> get_prev r h1 = get_prev r (heap s)"
    by blast
  from inv have li: "list_inv (heap s) ?l (map fst es)" by (simp add: cache_inv_def)
  have notin: "?p \<notin> set (nodes ?l (map fst es))"
    using list_inv_valid [OF li, of ?p] by (auto simp: entry_fresh)
  then have "\<forall>r \<in> set (nodes ?l (map fst es)). r \<noteq> ?p" by blast
  with h1(3) have li1: "list_inv h1 ?l (map fst es)"
    by (intro list_inv_frame [OF li]) simp
  from h1(2) have "entry h1 ?p = Some (k, v)" by simp
  from add_first_list [OF li1 this notin] obtain h2 where h2:
    "add_first ?l ?p h1 = Inr h2" "list_inv h2 ?l (?p # map fst es)"
    "\<forall>r. entry h2 r = entry h1 r"
    by blast
  let ?s' = "s\<lparr>cacheMap := AList.update k ?p (cacheMap s), heap := h2\<rparr>"
  from h1(1) h2(1) have "put_insert k v s = Inr ?s'" by (simp add: put_insert_def)
  moreover
  from new have kn: "k \<notin> fst ` set (cacheMap s)" by (simp add: map_of_eq_None_iff)
  with inv have kn': "k \<notin> (fst \<circ> snd) ` set es" by (force simp: cache_inv_def)
  from notin have pn: "?p \<notin> fst ` set es" by (auto simp: nodes_def)
  from pn have "fst e \<noteq> ?p" if "e \<in> set es" for e using that by force
  with inv h1(2) h2(3) have "list_all (\<lambda>e. entry h2 (fst e) = Some (snd e)) es"
    by (simp add: cache_inv_def list_all_iff)
  with inv h1(2) h2(2,3) kn kn' have "cache_inv ?s' ((?p, k, v) # es)"
    by (simp add: cache_inv_def update_absent)
  ultimately show ?thesis by auto
qed

lemma put_evict_inv:
  assumes inv: "cache_inv s (es @ [(q, kq, vq)])"
  shows "\<exists>s'. put_evict s = Inr s' \<and> capacity s' = capacity s \<and>
           cacheList s' = cacheList s \<and>
           cacheMap s' = AList.delete kq (cacheMap s) \<and> entry (heap s') q = None \<and>
           cache_inv s' es"
proof -
  let ?l = "cacheList s"
  from inv have li: "list_inv (heap s) ?l (map fst es @ [q])" by (simp add: cache_inv_def)
  from remove_last_list [OF li] obtain h1 where h1:
    "remove_last ?l (heap s) = Inr (q, h1)" "list_inv h1 ?l (map fst es)"
    "\<forall>r. entry h1 r = entry (heap s) r"
    by blast
  from inv h1(3) have e: "entry h1 q = Some (kq, vq)" by (simp add: cache_inv_def)
  from delete_node_spec [OF e] obtain h2 where h2:
    "delete_node q h1 = Inr h2" "\<forall>r. entry h2 r = (if r = q then None else entry h1 r)"
    "\<forall>r. r \<noteq> q \<longrightarrow> get_next r h2 = get_next r h1 \<and> get_prev r h2 = get_prev r h1"
    by blast
  let ?s' = "s\<lparr>cacheMap := AList.delete kq (cacheMap s), heap := h2\<rparr>"
  from h1(1) h2(1) e have "put_evict s = Inr ?s'"
    by (simp add: put_evict_def entry_get_key)
  moreover
  from li have qn: "q \<notin> set (nodes ?l (map fst es))"
    by (auto simp: list_inv_def nodes_def)
  then have "\<forall>r \<in> set (nodes ?l (map fst es)). r \<noteq> q" by blast
  with h2(3) have "list_inv h2 ?l (map fst es)"
    by (intro list_inv_frame [OF h1(2)]) simp
  moreover from inv have kn: "kq \<notin> (fst \<circ> snd) ` set es" by (auto simp: cache_inv_def)
  from qn have "q \<notin> fst ` set es" by (auto simp: nodes_def)
  with inv h1(3) h2(2) have "list_all (\<lambda>e. entry h2 (fst e) = Some (snd e)) es"
    by (auto simp: cache_inv_def list_all_iff)
  moreover from inv kn have
    "set (AList.delete kq (cacheMap s)) = set (map (\<lambda>e. (fst (snd e), fst e)) es)"
    by (auto simp: cache_inv_def AList.delete_eq)
  ultimately show ?thesis
    using inv h2(2) by (auto simp: cache_inv_def distinct_delete)
qed

lemma put_evict_empty:
  assumes inv: "cache_inv s []"
  shows "put_evict s = Inl Null_Dereference"
proof -
  from inv have "list_inv (heap s) (cacheList s) []" by (simp add: cache_inv_def)
  then have "remove_last (cacheList s) (heap s) = Inr (Null, heap s)"
    by (rule remove_last_empty)
  then show ?thesis by (simp add: put_evict_def get_key_def)
qed

lemma LRU_CACHE_init:
  "\<exists>s. LRU_CACHE cap = Inr s \<and> capacity s = cap \<and> cacheMap s = [] \<and> cache_inv s []"
  by (simp add: LRU_CACHE_def double_linked_list_ctor_def new_node_def set_next_def
      set_prev_def cache_inv_def list_inv_def nodes_def get_next_def get_prev_def)

lemma size_t_of_int_nonneg: "0 \<le> sint c \<Longrightarrow> size_t_of_int c = sint c"
proof -
  assume "0 \<le> sint c"
  moreover have "sint c < 2 ^ 31" using sint_lt [of c] by simp
  then have "sint c < 2 ^ 64" by simp
  ultimately show ?thesis by (simp add: size_t_of_int_def)
qed

lemma size_t_of_int_pos: "c \<noteq> 0 \<Longrightarrow> 1 \<le> size_t_of_int c"
proof -
  assume "c \<noteq> 0"
  have "word_of_int (sint c) = c" by simp
  with \<open>c \<noteq> 0\<close> have nz: "sint c \<noteq> 0" by force
  have lo: "- (2 ^ 31) \<le> sint c" and hi: "sint c < 2 ^ 31"
    using sint_ge [of c] sint_lt [of c] by simp_all
  show ?thesis
  proof (cases "0 \<le> sint c")
    case True
    with nz size_t_of_int_nonneg [of c] show ?thesis by simp
  next
    case False
    have "sint c mod 2 ^ 64 = (sint c + 2 ^ 64) mod 2 ^ 64" by simp
    also from lo False have "\<dots> = sint c + 2 ^ 64" by (intro mod_pos_pos_trivial) simp_all
    finally show ?thesis using lo by (simp add: size_t_of_int_def)
  qed
qed

lemma model_find_None:
  assumes "cache_inv s es"
  shows "map_of (map snd es) k = None \<longleftrightarrow> map_of (cacheMap s) k = None"
  using cache_inv_absent [OF assms, of k] by (simp add: map_of_eq_None_iff image_image)

lemma touch_split:
  assumes "k \<notin> set (map (fst \<circ> snd) (xs @ ys))"
  shows "touch k v (map snd (xs @ (p, k, v0) # ys)) = map snd ((p, k, v) # xs @ ys)"
proof -
  from assms have "filter (\<lambda>e. fst e \<noteq> k) (map snd xs) = map snd xs"
    "filter (\<lambda>e. fst e \<noteq> k) (map snd ys) = map snd ys"
    by (auto simp: filter_id_conv)
  then show ?thesis by (simp add: touch_def)
qed

lemma map_of_split:
  assumes "k \<notin> set (map (fst \<circ> snd) (xs @ ys))"
  shows "map_of (map snd (xs @ (p, k, v0) # ys)) k = Some v0"
proof -
  from assms have "map_of (map snd xs) k = None"
    by (simp add: map_of_eq_None_iff image_image)
  then show ?thesis by (simp add: map_add_Some_iff)
qed

lemma exec_refines:
  assumes inv: "cache_inv s es" and cap: "capacity s \<noteq> 0"
  shows "\<exists>s' es'. exec a s = Inr s' \<and> cache_inv s' es' \<and> capacity s' = capacity s \<and>
           cacheList s' = cacheList s \<and>
           map snd es' = model_exec (capacity s) a (map snd es)"
proof (cases "map_of (cacheMap s) (case a of Get k \<Rightarrow> k | Put k v \<Rightarrow> k)")
  case None
  show ?thesis
  proof (cases a)
    case (Get k)
    with None inv show ?thesis
      using model_find_None [OF inv, of k] by (auto simp: get_miss)
  next
    case (Put k v)
    with None have absent: "map_of (cacheMap s) k = None" by simp
    then have m: "map_of (map snd es) k = None" using model_find_None [OF inv] by simp
    have len: "length (cacheMap s) = length es" using inv by (rule cache_inv_size)
    show ?thesis
    proof (cases "size_t_of_int (capacity s) \<le> int (length (cacheMap s))")
      case False
      from put_insert_inv [OF inv absent, of v] obtain s' where
        "put_insert k v s = Inr s'" "capacity s' = capacity s" "cacheList s' = cacheList s"
        "cache_inv s' ((Ptr (length (heap s)), k, v) # es)"
        by blast
      with False absent m len Put show ?thesis
        by (intro exI [of _ s'] exI [of _ "(Ptr (length (heap s)), k, v) # es"])
          (simp add: put_def)
    next
      case True
      with size_t_of_int_pos [OF cap] len have "es \<noteq> []" by auto
      then obtain es0 q kq vq where es: "es = es0 @ [(q, kq, vq)]"
        by (metis append_butlast_last_id prod_cases3)
      from put_evict_inv [OF inv [unfolded es]] obtain s1 where s1:
        "put_evict s = Inr s1" "capacity s1 = capacity s" "cacheList s1 = cacheList s"
        "cacheMap s1 = AList.delete kq (cacheMap s)" "cache_inv s1 es0"
        by blast
      from absent s1(4) have absent1: "map_of (cacheMap s1) k = None"
        by (simp add: delete_conv')
      from put_insert_inv [OF s1(5) absent1, of v] obtain s' where
        "put_insert k v s1 = Inr s'" "capacity s' = capacity s1" "cacheList s' = cacheList s1"
        "cache_inv s' ((Ptr (length (heap s1)), k, v) # es0)"
        by blast
      with True absent m len Put s1 es show ?thesis
        by (intro exI [of _ s'] exI [of _ "(Ptr (length (heap s1)), k, v) # es0"])
          (simp add: put_def)
    qed
  qed
next
  case (Some p)
  let ?k = "case a of Get k \<Rightarrow> k | Put k v \<Rightarrow> k"
  from Some cache_inv_find [OF inv, of ?k p] obtain v0 where "(p, ?k, v0) \<in> set es" by auto
  from split_entry [OF inv this] obtain xs ys where es: "es = xs @ (p, ?k, v0) # ys"
    and kn: "?k \<notin> set (map (fst \<circ> snd) (xs @ ys))"
    by blast
  show ?thesis
  proof (cases a)
    case (Get k)
    with es kn have es': "es = xs @ (p, k, v0) # ys" "k \<notin> set (map (fst \<circ> snd) (xs @ ys))"
      by simp_all
    from get_hit_inv [OF inv [unfolded es'(1)]] obtain h' where
      "get k s = Inr (v0, s\<lparr>heap := h'\<rparr>)" "cache_inv (s\<lparr>heap := h'\<rparr>) ((p, k, v0) # xs @ ys)"
      by blast
    with Get show ?thesis
      unfolding es'(1) using map_of_split [OF es'(2), of p v0] touch_split [OF es'(2), of v0 p v0]
      by (intro exI [of _ "s\<lparr>heap := h'\<rparr>"] exI [of _ "(p, k, v0) # xs @ ys"]) simp
  next
    case (Put k v)
    with es kn have es': "es = xs @ (p, k, v0) # ys" "k \<notin> set (map (fst \<circ> snd) (xs @ ys))"
      by simp_all
    from put_hit_inv [OF inv [unfolded es'(1)], of v] obtain h' where
      "put k v s = Inr (s\<lparr>heap := h'\<rparr>)" "cache_inv (s\<lparr>heap := h'\<rparr>) ((p, k, v) # xs @ ys)"
      by blast
    with Put show ?thesis
      unfolding es'(1) using map_of_split [OF es'(2), of p v0] touch_split [OF es'(2), of v p v0]
      by (intro exI [of _ "s\<lparr>heap := h'\<rparr>"] exI [of _ "(p, k, v) # xs @ ys"]) simp
  qed
qed

lemma run_refines:
  assumes "cache_inv s es" and "capacity s \<noteq> 0"
  shows "\<exists>s' es'. run ops s = Inr s' \<and> cache_inv s' es' \<and> capacity s' = capacity s \<and>
           cacheList s' = cacheList s \<and>
           map snd es' = model_run (capacity s) ops (map snd es)"
  using assms
proof (induction ops arbitrary: s es)
  case Nil
  then show ?case by auto
next
  case (Cons a ops)
  from exec_refines [OF Cons.prems, of a] obtain s1 es1 where s1:
    "exec a s = Inr s1" "cache_inv s1 es1" "capacity s1 = capacity s"
    "cacheList s1 = cacheList s" "map snd es1 = model_exec (capacity s) a (map snd es)"
    by blast
  from Cons.prems(2) s1(3) have "capacity s1 \<noteq> 0" by simp
  from Cons.IH [OF s1(2) this] s1 show ?case by auto
qed

lemma touch_length:
  assumes "map_of kvs k \<noteq> None"
  shows "length (touch k v kvs) \<le> length kvs"
proof -
  from assms obtain v0 where "(k, v0) \<in> set kvs" by (auto dest: map_of_SomeD)
  then have "length (filter (\<lambda>e. fst e \<noteq> k) kvs) < length kvs"
    by (intro length_filter_less [of "(k, v0)"]) simp_all
  then show ?thesis by (simp add: touch_def)
qed

lemma model_exec_length:
  assumes "1 \<le> sint cap" and "int (length kvs) \<le> sint cap"
  shows "int (length (model_exec cap a kvs)) \<le> sint cap"
proof (cases a)
  case (Get k)
  show ?thesis
  proof (cases "map_of kvs k")
    case None
    with Get assms(2) show ?thesis by simp
  next
    case (Some v0)
    with Get assms(2) touch_length [of kvs k v0] show ?thesis by simp
  qed
next
  case (Put k v)
  from assms(1) have sz: "size_t_of_int cap = sint cap" by (simp add: size_t_of_int_nonneg)
  show ?thesis
  proof (cases "map_of kvs k")
    case None
    with Put assms sz show ?thesis by (cases kvs) auto
  next
    case (Some v0)
    with Put assms(2) touch_length [of kvs k v] show ?thesis by simp
  qed
qed

lemma model_run_length:
  assumes "1 \<le> sint cap" and "int (length kvs) \<le> sint cap"
  shows "int (length (model_run cap ops kvs)) \<le> sint cap"
  using assms(2)
  by (induction ops arbitrary: kvs) (simp_all add: model_exec_length [OF assms(1)])

lemma session_inv:
  assumes "cap \<noteq> 0"
  shows "\<exists>s es. session cap ops = Inr s \<and> cache_inv s es \<and> capacity s = cap \<and>
           map snd es = model_run cap ops []"
proof -
  from LRU_CACHE_init [of cap] obtain s0 where s0:
    "LRU_CACHE cap = Inr s0" "capacity s0 = cap" "cache_inv s0 []"
    by blast
  from assms s0(2) have "capacity s0 \<noteq> 0" by simp
  from run_refines [OF s0(3) this, of ops] s0(1,2) show ?thesis
    by (auto simp: session_def)
qed

lemma takeWhile_filter:
  assumes "k \<noteq> J"
  shows "set (takeWhile (\<lambda>x. x \<noteq> J) (filter (\<lambda>x. x \<noteq> k) xs)) =
         set (takeWhile (\<lambda>x. x \<noteq> J) xs) - {k}"
proof (induction xs)
  case Nil
  show ?case by simp
next
  case (Cons x xs)
  show ?case
  proof (cases "x = J")
    case True
    with assms show ?thesis by simp
  next
    case False
    with Cons show ?thesis by (cases "x = k") auto
  qed
qed

lemma ahead_touch:
  assumes "k \<noteq> J" and "ahead K J (map fst kvs)"
  shows "ahead K J (map fst (touch k v kvs))"
proof -
  have m: "map fst (touch k v kvs) = k # filter (\<lambda>x. x \<noteq> k) (map fst kvs)"
    by (simp add: touch_def filter_map comp_def)
  show ?thesis
    unfolding m using assms takeWhile_filter [OF assms(1), of "map fst kvs"]
    by (auto simp: ahead_def)
qed

lemma ahead_butlast:
  assumes "ahead K J ks"
  shows "ahead K J (butlast ks)"
proof (cases "J \<in> set (butlast ks)")
  case True
  then have "ks \<noteq> []" by auto
  then have "takeWhile (\<lambda>x. x \<noteq> J) (butlast ks @ [last ks]) = takeWhile (\<lambda>x. x \<noteq> J) ks"
    by simp
  moreover from True have
    "takeWhile (\<lambda>x. x \<noteq> J) (butlast ks @ [last ks]) = takeWhile (\<lambda>x. x \<noteq> J) (butlast ks)"
    by (intro takeWhile_append1 [of J]) simp_all
  moreover from True have "J \<in> set ks" by (rule in_set_butlastD)
  ultimately show ?thesis using assms by (simp add: ahead_def)
next
  case False
  then show ?thesis by (simp add: ahead_def)
qed

lemma ahead_Cons: "k \<noteq> J \<Longrightarrow> ahead K J ks \<Longrightarrow> ahead K J (k # ks)"
  by (auto simp: ahead_def)

lemma ahead_front: "J \<noteq> K \<Longrightarrow> ahead K J (K # ks)"
  by (auto simp: ahead_def)

lemma model_exec_ahead:
  assumes "ahead K J (map fst kvs)"
    and "case a of Put k v \<Rightarrow> k \<noteq> J | Get k \<Rightarrow> k \<noteq> J \<or> map_of kvs J = None"
  shows "ahead K J (map fst (model_exec cap a kvs))"
proof (cases a)
  case (Get k)
  with assms show ?thesis
    by (auto split: option.splits intro: ahead_touch)
next
  case (Put k v)
  with assms have "k \<noteq> J" by simp
  with assms(1) have "ahead K J (map fst (touch k v kvs))"
    "ahead K J (k # butlast (map fst kvs))" "ahead K J (k # map fst kvs)"
    by (auto intro: ahead_touch ahead_Cons ahead_butlast)
  with Put show ?thesis by (simp add: map_butlast)
qed

lemma model_exec_front:
  assumes "case a of Put k v \<Rightarrow> k = K | Get k \<Rightarrow> k = K \<and> map_of kvs K \<noteq> None"
  shows "\<exists>rest. map fst (model_exec cap a kvs) = K # rest"
  using assms by (cases a) (auto simp: touch_def)

lemma present_iff:
  assumes "cache_inv s es"
  shows "present k s \<longleftrightarrow> k \<in> set (map (fst \<circ> snd) es)"
  using cache_inv_absent [OF assms, of k] by (simp add: present_def)

lemma present_model:
  assumes "cache_inv s es"
  shows "present k s \<longleftrightarrow> map_of (map snd es) k \<noteq> None"
  using model_find_None [OF assms, of k] by (simp add: present_def)

lemma untouched_run:
  assumes "cache_inv s es" and "capacity s \<noteq> 0" and "ahead K J (map (fst \<circ> snd) es)"
    and "untouched J s ops"
  shows "\<exists>s' es'. run ops s = Inr s' \<and> cache_inv s' es' \<and> ahead K J (map (fst \<circ> snd) es')"
  using assms
proof (induction ops arbitrary: s es)
  case Nil
  then show ?case by auto
next
  case (Cons a ops)
  from exec_refines [OF Cons.prems(1,2), of a] obtain s1 es1 where s1:
    "exec a s = Inr s1" "cache_inv s1 es1" "capacity s1 = capacity s"
    "map snd es1 = model_exec (capacity s) a (map snd es)"
    by blast
  from Cons.prems(4) have na: "\<not> accesses J s a" and rest: "untouched J s1 ops"
    using s1(1) by simp_all
  from na have "case a of Put k v \<Rightarrow> k \<noteq> J | Get k \<Rightarrow> k \<noteq> J \<or> map_of (map snd es) J = None"
    using present_model [OF Cons.prems(1), of J] by (cases a) auto
  moreover from Cons.prems(3) have "ahead K J (map fst (map snd es))" by (simp add: comp_def)
  ultimately have "ahead K J (map fst (model_exec (capacity s) a (map snd es)))"
    by (intro model_exec_ahead)
  with s1(4) have "ahead K J (map fst (map snd es1))" by simp
  then have a1: "ahead K J (map (fst \<circ> snd) es1)" by (simp add: comp_def)
  from Cons.prems(2) s1(3) have "capacity s1 \<noteq> 0" by simp
  from Cons.IH [OF s1(2) this a1 rest] s1(1) show ?case by simp
qed

section \<open>Further facts about well-formed caches\<close>

lemma remove1_middle: "e \<notin> set xs \<Longrightarrow> remove1 e (xs @ e # ys) = xs @ ys"
  by (simp add: remove1_append)

lemma split_entry_distinct:
  assumes "cache_inv s es" and "(p, k, v) \<in> set es"
  shows "\<exists>xs ys. es = xs @ (p, k, v) # ys \<and> (p, k, v) \<notin> set xs"
proof -
  from split_entry [OF assms] obtain xs ys where
    es: "es = xs @ (p, k, v) # ys" and p: "p \<notin> set (map fst (xs @ ys))"
    by blast
  have "(p, k, v) \<notin> set xs"
  proof
    assume "(p, k, v) \<in> set xs"
    then have "fst (p, k, v) \<in> fst ` set xs" by (rule imageI)
    with p show False by simp
  qed
  with es show ?thesis by blast
qed

lemma zip_keys_nodes:
  "zip (map (fst \<circ> snd) es) (map fst es) = map (\<lambda>e. (fst (snd e), fst e)) es"
  by (induction es) simp_all

text \<open>
  The content of a well-formed cache is determined by its state: the list \<open>es\<close> of
  \<open>cache_inv s es\<close> is unique.
\<close>

lemma links_unique:
  assumes "links h (p # as @ [t])" and "links h (p # bs @ [t])"
    and "t \<notin> set as" and "t \<notin> set bs"
  shows "as = bs"
  using assms
proof (induction as arbitrary: p bs)
  case Nil
  then show ?case by (cases bs) auto
next
  case (Cons a as)
  show ?case
  proof (cases bs)
    case Nil
    with Cons.prems show ?thesis by auto
  next
    case (Cons b bs')
    with Cons.prems have "a = b" by simp
    moreover from Cons.prems Cons have "as = bs'"
      by (intro Cons.IH [of a bs']) (auto simp: \<open>a = b\<close>)
    ultimately show ?thesis using Cons by simp
  qed
qed

lemma cache_inv_unique:
  assumes "cache_inv s es" and "cache_inv s es'"
  shows "es = es'"
proof -
  from assms have "map fst es = map fst es'"
    by (intro links_unique [of "heap s" "head (cacheList s)" _ "tail (cacheList s)"])
      (auto simp: cache_inv_def list_inv_def nodes_def)
  moreover from assms have "map snd es = map (\<lambda>e. the (entry (heap s) (fst e))) es"
    "map snd es' = map (\<lambda>e. the (entry (heap s) (fst e))) es'"
    by (auto simp: cache_inv_def list_all_iff)
  then have "map snd es = map (\<lambda>p. the (entry (heap s) p)) (map fst es)"
    "map snd es' = map (\<lambda>p. the (entry (heap s) p)) (map fst es')"
    by (simp_all add: comp_def)
  ultimately have "map snd es = map snd es'" by simp
  with \<open>map fst es = map fst es'\<close> show ?thesis by (simp add: pair_list_eqI)
qed

text \<open>
  With any capacity other than zero no operation ever faults.  This includes the negative
  capacities: converted to \<^verbatim>\<open>size_t\<close> at line 101 they are bounds above \<open>2 ^ 32\<close>,
  which a map with 32-bit keys never reaches, so such a cache never takes the eviction
  branch.
\<close>

lemma nonzero_capacity_never_faults:
  assumes "cap \<noteq> 0"
  shows "\<exists>s. session cap ops = Inr s"
  using session_inv [OF assms, of ops] by blast

lemma size_t_of_int_negative:
  assumes "sint c < 0"
  shows "size_t_of_int c = sint c + 2 ^ 64"
proof -
  have lo: "- (2 ^ 31) \<le> sint c" using sint_ge [of c] by simp
  have "sint c mod 2 ^ 64 = (sint c + 2 ^ 64) mod 2 ^ 64" by simp
  also from lo assms have "\<dots> = sint c + 2 ^ 64" by (intro mod_pos_pos_trivial) simp_all
  finally show ?thesis by (simp add: size_t_of_int_def)
qed

lemma index_size_bound:
  assumes "distinct (map fst (m :: (i32 \<times> ptr) list))"
  shows "int (length m) \<le> 2 ^ 32"
proof -
  from assms have "length m = card (set (map fst m))"
    by (metis distinct_card length_map)
  also have "\<dots> \<le> card (UNIV :: i32 set)" by (intro card_mono) simp_all
  also have "\<dots> = 2 ^ 32" by (simp add: card_word)
  finally have "length m \<le> 2 ^ 32" .
  then show ?thesis by (metis of_nat_le_iff of_nat_numeral of_nat_power)
qed

lemma negative_capacity_never_evicts:
  assumes "sint cap < 0" and "session cap ops = Inr s"
  shows "\<not> size_t_of_int (capacity s) \<le> int (length (cacheMap s))"
proof -
  from assms(1) have "cap \<noteq> 0" by auto
  from session_inv [OF this, of ops] assms(2) obtain es where
    inv: "cache_inv s es" and cap: "capacity s = cap"
    by auto
  from inv have "int (length (cacheMap s)) \<le> 2 ^ 32"
    by (intro index_size_bound) (simp add: cache_inv_def)
  moreover have "- (2 ^ 31) \<le> sint cap" using sint_ge [of cap] by simp
  ultimately show ?thesis
    using size_t_of_int_negative [OF assms(1)] cap by simp
qed

section \<open>The walkthrough states\<close>

lemma lru_after_130_reached: "session 2 [Put 1 10, Put 2 20] = Inr lru_after_130"
  by code_simp

lemma lru_after_132_reached: "exec (Get 1) lru_after_130 = Inr lru_after_132"
  by code_simp

lemma lru_after_130_inv: "cache_inv lru_after_130 [(Ptr 3, 2, 20), (Ptr 2, 1, 10)]"
  by code_simp

section \<open>The claims\<close>

text \<open>
  C1 (as amended).  The constructor of lines 72-74 checks nothing: for every capacity,
  including zero and the negative ones, construction succeeds and yields a well-formed
  empty cache with that capacity.
\<close>

theorem construction_accepts_any_capacity:
  "\<exists>s. LRU_CACHE cap = Inr s \<and> capacity s = cap \<and> cacheMap s = [] \<and> cache_inv s []"
  by (rule LRU_CACHE_init)

theorem construction_accepts_any_capacity_witness:
  "\<exists>s. LRU_CACHE 0 = Inr s \<and> capacity s = 0 \<and> cacheMap s = [] \<and> cache_inv s []"
  using construction_accepts_any_capacity [of 0] by simp

text \<open>
  C1 as stated fails: capacities 0 and -1 are below 1, yet construction is not rejected,
  and the cache built with capacity -1 goes on to accept and keep three entries.
\<close>

theorem small_capacity_not_rejected:
  "sint (0 :: i32) < 1 \<and> \<not> isl (LRU_CACHE 0) \<and>
   sint (- 1 :: i32) < 1 \<and> \<not> isl (LRU_CACHE (- 1)) \<and>
   map_sum id cacheMap (session (- 1) [Put 1 10, Put 2 20, Put 3 30]) =
     Inr [(1, Ptr 2), (2, Ptr 3), (3, Ptr 4)]"
  by code_simp

text \<open>
  C2.  In a well-formed cache of capacity at least 1 whose size equals the capacity,
  \<^verbatim>\<open>put\<close> of an absent key first runs the eviction block: \<^verbatim>\<open>remove_last\<close> unlinks the
  last entry \<open>(q, kq, vq)\<close> of the recency order (the node before the tail sentinel), its
  key is erased from the map and the node is released, leaving a well-formed cache \<open>s1\<close>
  with the remaining entries, one below capacity.  Only then the insertion block links the
  new node in front and enters it into the map.  The size is below the capacity in between
  and equal to it at the end, so it never exceeds the capacity.
\<close>

theorem put_full_evicts_then_inserts:
  assumes "cache_inv s es" and "1 \<le> sint (capacity s)"
    and "map_of (cacheMap s) k = None"
    and "int (length (cacheMap s)) = sint (capacity s)"
  shows "\<exists>es0 q kq vq h1 s1 p s'.
           es = es0 @ [(q, kq, vq)] \<and>
           remove_last (cacheList s) (heap s) = Inr (q, h1) \<and>
           list_inv h1 (cacheList s) (map fst es0) \<and>
           put_evict s = Inr s1 \<and> cacheMap s1 = AList.delete kq (cacheMap s) \<and>
           \<not> present kq s1 \<and> entry (heap s1) q = None \<and> cache_inv s1 es0 \<and>
           int (length (cacheMap s1)) < sint (capacity s) \<and>
           put_insert k v s1 = Inr s' \<and> put k v s = Inr s' \<and>
           cache_inv s' ((p, k, v) # es0) \<and> capacity s' = capacity s \<and>
           int (length (cacheMap s')) = sint (capacity s)"
proof -
  have len: "length (cacheMap s) = length es" using assms(1) by (rule cache_inv_size)
  with assms(2,4) have "es \<noteq> []" by auto
  then obtain es0 e where "es = es0 @ [e]" by (metis append_butlast_last_id)
  then obtain q kq vq where es: "es = es0 @ [(q, kq, vq)]" by (cases e) auto
  from assms(1) have "list_inv (heap s) (cacheList s) (map fst es0 @ [q])"
    by (simp add: cache_inv_def es)
  from remove_last_list [OF this] obtain h1 where h1:
    "remove_last (cacheList s) (heap s) = Inr (q, h1)" "list_inv h1 (cacheList s) (map fst es0)"
    by blast
  from put_evict_inv [OF assms(1) [unfolded es]] obtain s1 where s1:
    "put_evict s = Inr s1" "capacity s1 = capacity s"
    "cacheMap s1 = AList.delete kq (cacheMap s)" "entry (heap s1) q = None" "cache_inv s1 es0"
    by blast
  have gone: "\<not> present kq s1" by (simp add: present_def s1(3) delete_conv')
  have len1: "length (cacheMap s1) = length es0" using s1(5) by (rule cache_inv_size)
  from assms(3) s1(3) have absent1: "map_of (cacheMap s1) k = None" by (simp add: delete_conv')
  from put_insert_inv [OF s1(5) absent1, of v] obtain s' where s':
    "put_insert k v s1 = Inr s'" "capacity s' = capacity s1"
    "cache_inv s' ((Ptr (length (heap s1)), k, v) # es0)"
    by blast
  have len': "length (cacheMap s') = Suc (length es0)"
    using cache_inv_size [OF s'(3)] by simp
  from assms(2) have "size_t_of_int (capacity s) = sint (capacity s)"
    by (simp add: size_t_of_int_nonneg)
  with assms(3,4) s1(1) s'(1) have "put k v s = Inr s'" by (simp add: put_def)
  with es h1 s1 gone s' len len1 len' assms(4) show ?thesis
    by (intro exI [of _ es0] exI [of _ q] exI [of _ kq] exI [of _ vq] exI [of _ h1]
        exI [of _ s1] exI [of _ "Ptr (length (heap s1))"] exI [of _ s']) simp
qed

theorem put_full_evicts_then_inserts_witness:
  "cache_inv lru_after_130 [(Ptr 3, 2, 20), (Ptr 2, 1, 10)] \<and>
   1 \<le> sint (capacity lru_after_130) \<and>
   map_of (cacheMap lru_after_130) 3 = None \<and>
   int (length (cacheMap lru_after_130)) = sint (capacity lru_after_130) \<and>
   (\<exists>s1 p s'. put_evict lru_after_130 = Inr s1 \<and> cache_inv s1 [(Ptr 3, 2, 20)] \<and>
      \<not> present 1 s1 \<and> put 3 30 lru_after_130 = Inr s' \<and>
      cache_inv s' [(p, 3, 30), (Ptr 3, 2, 20)])"
proof -
  have h1: "cache_inv lru_after_130 [(Ptr 3, 2, 20), (Ptr 2, 1, 10)]" by code_simp
  have h2: "1 \<le> sint (capacity lru_after_130)" by (simp add: lru_after_130_def)
  have h3: "map_of (cacheMap lru_after_130) 3 = None" by code_simp
  have h4: "int (length (cacheMap lru_after_130)) = sint (capacity lru_after_130)"
    by (simp add: lru_after_130_def)
  from put_full_evicts_then_inserts [OF h1 h2 h3 h4, of 30]
  obtain es0 q kq vq s1 p s' where r:
    "[(Ptr 3, 2 :: i32, 20 :: i32), (Ptr 2, 1, 10)] = es0 @ [(q, kq, vq)]"
    "put_evict lru_after_130 = Inr s1" "\<not> present kq s1" "cache_inv s1 es0"
    "put 3 30 lru_after_130 = Inr s'" "cache_inv s' ((p, 3, 30) # es0)"
    by (elim exE conjE) (rule that, assumption+)
  from r(1) have "es0 = [(Ptr 3, 2, 20)]" "kq = 1"
    by (simp_all add: Cons_eq_append_conv)
  with r(2-) have "put_evict lru_after_130 = Inr s1" "cache_inv s1 [(Ptr 3, 2, 20)]"
    "\<not> present 1 s1" "put 3 30 lru_after_130 = Inr s'"
    "cache_inv s' [(p, 3, 30), (Ptr 3, 2, 20)]"
    by simp_all
  with h1 h2 h3 h4 show ?thesis
    by (intro conjI exI [of _ s1] exI [of _ p] exI [of _ s']) assumption+
qed

text \<open>
  C3.  Capacity invariant: with a capacity of at least 1, every finite sequence of
  \<^verbatim>\<open>get\<close> and \<^verbatim>\<open>put\<close> on a freshly constructed cache runs without fault and ends in
  a well-formed cache in which the map and the list have the same number of entries, at
  most the capacity.  Every prefix of a sequence is a sequence, so this holds after every
  operation.
\<close>

theorem capacity_invariant:
  assumes "1 \<le> sint cap"
  shows "\<exists>s es. session cap ops = Inr s \<and> cache_inv s es \<and> capacity s = cap \<and>
           length (cacheMap s) = length es \<and> int (length es) \<le> sint cap"
proof -
  from assms have "cap \<noteq> 0" by auto
  from session_inv [OF this, of ops] obtain s es where s:
    "session cap ops = Inr s" "cache_inv s es" "capacity s = cap"
    "map snd es = model_run cap ops []"
    by blast
  have "int (length (model_run cap ops [])) \<le> sint cap"
    using assms by (intro model_run_length) simp_all
  with s(4) have "int (length (map snd es)) \<le> sint cap" by simp
  then have "int (length es) \<le> sint cap" by simp
  with s cache_inv_size [OF s(2)] show ?thesis by blast
qed

theorem capacity_invariant_witness:
  "1 \<le> sint (2 :: i32) \<and>
   (\<exists>s es. session 2 [Put 1 10, Put 2 20, Get 1, Put 3 30, Get 2, Put 4 40] = Inr s \<and>
      cache_inv s es \<and> length (cacheMap s) = length es \<and> int (length es) \<le> sint (2 :: i32))"
proof -
  have h: "1 \<le> sint (2 :: i32)" by simp
  from capacity_invariant [OF h, of "[Put 1 10, Put 2 20, Get 1, Put 3 30, Get 2, Put 4 40]"] h
  show ?thesis by blast
qed

text \<open>
  C4.  Bijection invariant: with a capacity of at least 1, after every finite sequence of
  operations on a fresh cache the nodes \<open>ps\<close> linked between the sentinels hold the keys
  \<open>ks\<close>, no key twice, the key set of the map is exactly the set of these keys, and the
  map sends each key to the node that holds it.
\<close>

theorem index_list_bijection:
  assumes "1 \<le> sint cap"
  shows "\<exists>s ps ks. session cap ops = Inr s \<and>
           list_inv (heap s) (cacheList s) ps \<and>
           map (\<lambda>p. get_key p (heap s)) ps = map Inr ks \<and> distinct ks \<and>
           set (map fst (cacheMap s)) = set ks \<and> distinct (map fst (cacheMap s)) \<and>
           map_of (cacheMap s) = map_of (zip ks ps)"
proof -
  from assms have "cap \<noteq> 0" by auto
  from session_inv [OF this, of ops] obtain s es where s:
    "session cap ops = Inr s" "cache_inv s es"
    by blast
  let ?ps = "map fst es" and ?ks = "map (fst \<circ> snd) es"
  from s(2) have li: "list_inv (heap s) (cacheList s) ?ps" and dk: "distinct ?ks"
    and dm: "distinct (map fst (cacheMap s))"
    and m: "set (cacheMap s) = set (map (\<lambda>e. (fst (snd e), fst e)) es)"
    and en: "\<forall>e \<in> set es. entry (heap s) (fst e) = Some (snd e)"
    by (simp_all add: cache_inv_def list_all_iff)
  have keys: "map (\<lambda>p. get_key p (heap s)) ?ps = map Inr ?ks"
  proof (simp, intro ballI)
    fix e assume "e \<in> set es"
    with en have "entry (heap s) (fst e) = Some (fst (snd e), snd (snd e))" by simp
    then show "get_key (fst e) (heap s) = Inr (fst (snd e))" by (rule entry_get_key)
  qed
  have "set (map fst (cacheMap s)) = fst ` set (map (\<lambda>e. (fst (snd e), fst e)) es)"
    using m by simp
  also have "\<dots> = set ?ks" by (simp add: image_image)
  finally have ks: "set (map fst (cacheMap s)) = set ?ks" .
  have "map fst (zip ?ks ?ps) = ?ks" by (simp add: zip_keys_nodes comp_def)
  with dk have "distinct (map fst (zip ?ks ?ps))" by simp
  moreover from m have "set (cacheMap s) = set (zip ?ks ?ps)" by (simp add: zip_keys_nodes)
  ultimately have "map_of (cacheMap s) = map_of (zip ?ks ?ps)"
    using dm by (simp add: map_of_inject_set)
  with s(1) li keys dk ks dm show ?thesis by blast
qed

theorem index_list_bijection_witness:
  "1 \<le> sint (2 :: i32) \<and>
   (\<exists>s ps ks. session 2 [Put 1 10, Put 2 20, Get 1, Put 3 30, Get 2, Put 4 40] = Inr s \<and>
      list_inv (heap s) (cacheList s) ps \<and>
      map (\<lambda>p. get_key p (heap s)) ps = map Inr ks \<and> distinct ks \<and>
      set (map fst (cacheMap s)) = set ks)"
proof -
  have h: "1 \<le> sint (2 :: i32)" by simp
  from index_list_bijection [OF h, of "[Put 1 10, Put 2 20, Get 1, Put 3 30, Get 2, Put 4 40]"] h
  show ?thesis by blast
qed

text \<open>
  C5.  Recency law.  Take any state \<open>s0\<close> reached from a fresh cache of capacity at
  least 1, an operation that accesses \<open>K\<close> there (a \<^verbatim>\<open>put\<close> of \<open>K\<close> or a \<^verbatim>\<open>get\<close> of
  \<open>K\<close> that hits), and any later operations none of which accesses another key \<open>J\<close>, so
  that \<open>K\<close> stays the more recently accessed of the two.  Then the later operations run
  without fault and, whenever \<open>J\<close> is still in the cache, so is \<open>K\<close>: whatever evictions
  the later puts cause, \<open>J\<close> is evicted no later than \<open>K\<close>.
\<close>

theorem recency_law:
  assumes "1 \<le> sint cap" and "session cap ops1 = Inr s0"
    and "accesses K s0 a" and "exec a s0 = Inr s1"
    and "J \<noteq> K" and "untouched J s1 ops2"
  shows "\<exists>s2. run ops2 s1 = Inr s2 \<and> (present J s2 \<longrightarrow> present K s2)"
proof -
  from assms(1) have "cap \<noteq> 0" by auto
  from session_inv [OF this, of ops1] assms(2) obtain es0 where
    inv0: "cache_inv s0 es0" and cap0: "capacity s0 = cap"
    by auto
  from \<open>cap \<noteq> 0\<close> cap0 have nz0: "capacity s0 \<noteq> 0" by simp
  from exec_refines [OF inv0 nz0, of a] assms(4) obtain es1 where
    inv1: "cache_inv s1 es1" and cap1: "capacity s1 = capacity s0"
    and m1: "map snd es1 = model_exec (capacity s0) a (map snd es0)"
    by auto
  from assms(3) have "case a of Put k v \<Rightarrow> k = K | Get k \<Rightarrow> k = K \<and> map_of (map snd es0) K \<noteq> None"
    using present_model [OF inv0, of K] by (cases a) auto
  from model_exec_front [OF this, of "capacity s0"] m1 obtain rest where
    "map fst (map snd es1) = K # rest"
    by auto
  then have "map (fst \<circ> snd) es1 = K # rest" by simp
  with assms(5) have a1: "ahead K J (map (fst \<circ> snd) es1)" by (simp add: ahead_front)
  from nz0 cap1 have nz1: "capacity s1 \<noteq> 0" by simp
  from untouched_run [OF inv1 nz1 a1 assms(6)] obtain s2 es2 where s2:
    "run ops2 s1 = Inr s2" "cache_inv s2 es2" "ahead K J (map (fst \<circ> snd) es2)"
    by blast
  have "present K s2" if "present J s2"
  proof -
    from that have "J \<in> set (map (fst \<circ> snd) es2)" using present_iff [OF s2(2)] by simp
    with s2(3) have "K \<in> set (takeWhile (\<lambda>x. x \<noteq> J) (map (fst \<circ> snd) es2))"
      by (simp add: ahead_def)
    then have "K \<in> set (map (fst \<circ> snd) es2)" by (rule set_takeWhileD [THEN conjunct1])
    then show ?thesis using present_iff [OF s2(2)] by simp
  qed
  with s2(1) show ?thesis by blast
qed

theorem recency_law_witness:
  "1 \<le> sint (2 :: i32) \<and> session 2 [Put 1 10, Put 2 20] = Inr lru_after_130 \<and>
   accesses 1 lru_after_130 (Get 1) \<and> exec (Get 1) lru_after_130 = Inr lru_after_132 \<and>
   (2 :: i32) \<noteq> 1 \<and>
   untouched 2 lru_after_132 [Put 1 11, Get 7] \<and>
   (\<exists>s2. run [Put 1 11, Get 7] lru_after_132 = Inr s2 \<and> present 2 s2 \<and> present 1 s2) \<and>
   untouched 2 lru_after_132 [Put 3 30, Get 2] \<and>
   (\<exists>s2. run [Put 3 30, Get 2] lru_after_132 = Inr s2 \<and> \<not> present 2 s2 \<and> present 1 s2)"
proof -
  have h1: "1 \<le> sint (2 :: i32)" by simp
  have h2: "session 2 [Put 1 10, Put 2 20] = Inr lru_after_130" by code_simp
  have h3: "accesses 1 lru_after_130 (Get 1)" by code_simp
  have h4: "exec (Get 1) lru_after_130 = Inr lru_after_132" by code_simp
  have h5: "(2 :: i32) \<noteq> 1" by simp
  have h6: "untouched 2 lru_after_132 [Put 1 11, Get 7]" by code_simp
  have h7: "untouched 2 lru_after_132 [Put 3 30, Get 2]" by code_simp
  from recency_law [OF h1 h2 h3 h4 h5 h6] obtain s2 where r:
    "run [Put 1 11, Get 7] lru_after_132 = Inr s2" "present 2 s2 \<longrightarrow> present 1 s2"
    by blast
  have "present 2 (projr (run [Put 1 11, Get 7] lru_after_132))" by code_simp
  with r(1) have "present 2 s2" by simp
  with r have a: "\<exists>s2. run [Put 1 11, Get 7] lru_after_132 = Inr s2 \<and> present 2 s2 \<and> present 1 s2"
    by blast
  from recency_law [OF h1 h2 h3 h4 h5 h7] obtain s3 where r3:
    "run [Put 3 30, Get 2] lru_after_132 = Inr s3"
    by blast
  have "\<not> present 2 (projr (run [Put 3 30, Get 2] lru_after_132))"
    "present 1 (projr (run [Put 3 30, Get 2] lru_after_132))"
    by code_simp+
  with r3 have "\<not> present 2 s3" "present 1 s3" by simp_all
  with r3 have b: "\<exists>s2. run [Put 3 30, Get 2] lru_after_132 = Inr s2 \<and> \<not> present 2 s2 \<and> present 1 s2"
    by blast
  from h1 h2 h3 h4 h5 h6 a h7 b show ?thesis by (intro conjI) assumption+
qed

text \<open>
  C6.  In a well-formed cache, \<^verbatim>\<open>get\<close> of a key that the map sends to node \<open>p\<close>
  returns the value \<open>v\<close> stored in that node, leaves the map and the capacity as they
  were, and moves the entry \<open>(p, k, v)\<close> to the front of the recency order; the other
  entries keep their relative order and the number of entries is unchanged.
\<close>

theorem get_hit_moves_to_front:
  assumes "cache_inv s es" and "map_of (cacheMap s) k = Some p"
  shows "\<exists>v s'. (p, k, v) \<in> set es \<and> get_value p (heap s) = Inr v \<and>
           get k s = Inr (v, s') \<and>
           cache_inv s' ((p, k, v) # remove1 (p, k, v) es) \<and>
           length ((p, k, v) # remove1 (p, k, v) es) = length es \<and>
           cacheMap s' = cacheMap s \<and> capacity s' = capacity s"
proof -
  from assms cache_inv_find [OF assms(1), of k p] obtain v where v: "(p, k, v) \<in> set es"
    by auto
  from split_entry_distinct [OF assms(1) v] obtain xs ys where
    es: "es = xs @ (p, k, v) # ys" and nx: "(p, k, v) \<notin> set xs"
    by blast
  from get_hit_inv [OF assms(1) [unfolded es]] obtain h' where h':
    "get k s = Inr (v, s\<lparr>heap := h'\<rparr>)" "cache_inv (s\<lparr>heap := h'\<rparr>) ((p, k, v) # xs @ ys)"
    by blast
  from assms(1) v have "entry (heap s) p = Some (k, v)"
    by (auto simp: cache_inv_def list_all_iff)
  then have "get_value p (heap s) = Inr v" by (rule entry_get_value)
  with v h' nx show ?thesis
    unfolding es by (intro exI [of _ v] exI [of _ "s\<lparr>heap := h'\<rparr>"]) (simp add: remove1_middle)
qed

theorem get_hit_moves_to_front_witness:
  "cache_inv lru_after_130 [(Ptr 3, 2, 20), (Ptr 2, 1, 10)] \<and>
   map_of (cacheMap lru_after_130) 1 = Some (Ptr 2) \<and>
   (\<exists>s'. get 1 lru_after_130 = Inr (10, s') \<and>
      cache_inv s' [(Ptr 2, 1, 10), (Ptr 3, 2, 20)] \<and> cacheMap s' = cacheMap lru_after_130)"
proof -
  have h1: "cache_inv lru_after_130 [(Ptr 3, 2, 20), (Ptr 2, 1, 10)]" by code_simp
  have h2: "map_of (cacheMap lru_after_130) 1 = Some (Ptr 2)" by code_simp
  from get_hit_moves_to_front [OF h1 h2] obtain v s' where r:
    "(Ptr 2, 1, v) \<in> set [(Ptr 3, 2 :: i32, 20 :: i32), (Ptr 2, 1, 10)]"
    "get 1 lru_after_130 = Inr (v, s')"
    "cache_inv s' ((Ptr 2, 1, v) # remove1 (Ptr 2, 1, v) [(Ptr 3, 2, 20), (Ptr 2, 1, 10)])"
    "cacheMap s' = cacheMap lru_after_130"
    by (elim exE conjE) (rule that, assumption+)
  from r(1) have "v = 10" by simp
  with r(2,3,4) have "get 1 lru_after_130 = Inr (10, s')"
    "cache_inv s' [(Ptr 2, 1, 10), (Ptr 3, 2, 20)]" "cacheMap s' = cacheMap lru_after_130"
    by simp_all
  with h1 h2 show ?thesis by (intro conjI exI [of _ s']) assumption+
qed

text \<open>
  C7.  Update-not-grow.  In a well-formed cache, full or not, \<^verbatim>\<open>put\<close> of a key that
  the map sends to node \<open>p\<close> stores the new value in that same node and moves it to the
  front; the map is unchanged, every other entry is kept in its relative order, and the
  number of entries is unchanged, so nothing is evicted.
\<close>

theorem put_present_updates_in_place:
  assumes "cache_inv s es" and "map_of (cacheMap s) k = Some p"
  shows "\<exists>v0 s'. (p, k, v0) \<in> set es \<and> put k v s = Inr s' \<and>
           cache_inv s' ((p, k, v) # remove1 (p, k, v0) es) \<and>
           length ((p, k, v) # remove1 (p, k, v0) es) = length es \<and>
           cacheMap s' = cacheMap s \<and> capacity s' = capacity s"
proof -
  from assms cache_inv_find [OF assms(1), of k p] obtain v0 where v0: "(p, k, v0) \<in> set es"
    by auto
  from split_entry_distinct [OF assms(1) v0] obtain xs ys where
    es: "es = xs @ (p, k, v0) # ys" and nx: "(p, k, v0) \<notin> set xs"
    by blast
  from put_hit_inv [OF assms(1) [unfolded es], of v] obtain h' where h':
    "put k v s = Inr (s\<lparr>heap := h'\<rparr>)" "cache_inv (s\<lparr>heap := h'\<rparr>) ((p, k, v) # xs @ ys)"
    by blast
  with v0 nx show ?thesis
    unfolding es by (intro exI [of _ v0] exI [of _ "s\<lparr>heap := h'\<rparr>"]) (simp add: remove1_middle)
qed

theorem put_present_updates_in_place_witness:
  "cache_inv lru_after_130 [(Ptr 3, 2, 20), (Ptr 2, 1, 10)] \<and>
   map_of (cacheMap lru_after_130) 1 = Some (Ptr 2) \<and>
   int (length (cacheMap lru_after_130)) = sint (capacity lru_after_130) \<and>
   (\<exists>s'. put 1 11 lru_after_130 = Inr s' \<and>
      cache_inv s' [(Ptr 2, 1, 11), (Ptr 3, 2, 20)] \<and> cacheMap s' = cacheMap lru_after_130)"
proof -
  have h1: "cache_inv lru_after_130 [(Ptr 3, 2, 20), (Ptr 2, 1, 10)]" by code_simp
  have h2: "map_of (cacheMap lru_after_130) 1 = Some (Ptr 2)" by code_simp
  have h3: "int (length (cacheMap lru_after_130)) = sint (capacity lru_after_130)"
    by (simp add: lru_after_130_def)
  from put_present_updates_in_place [OF h1 h2, of 11] obtain v0 s' where r:
    "(Ptr 2, 1, v0) \<in> set [(Ptr 3, 2 :: i32, 20 :: i32), (Ptr 2, 1, 10)]"
    "put 1 11 lru_after_130 = Inr s'"
    "cache_inv s' ((Ptr 2, 1, 11) # remove1 (Ptr 2, 1, v0) [(Ptr 3, 2, 20), (Ptr 2, 1, 10)])"
    "cacheMap s' = cacheMap lru_after_130"
    by (elim exE conjE) (rule that, assumption+)
  from r(1) have "v0 = 10" by simp
  with r(2,3,4) have "put 1 11 lru_after_130 = Inr s'"
    "cache_inv s' [(Ptr 2, 1, 11), (Ptr 3, 2, 20)]" "cacheMap s' = cacheMap lru_after_130"
    by simp_all
  with h1 h2 h3 show ?thesis by (intro conjI exI [of _ s']) assumption+
qed

text \<open>
  C8.  Miss transparency: \<^verbatim>\<open>get\<close> of a key that is not in the map returns the miss
  indicator and the state after the call is the state before it, so the size, the map
  and the list order are all unchanged.
\<close>

theorem get_miss_changes_nothing:
  "map_of (cacheMap s) k = None \<Longrightarrow> get k s = Inr (- 1, s)"
  by (simp add: get_def)

theorem get_miss_changes_nothing_witness:
  "map_of (cacheMap lru_after_130) 5 = None \<and> get 5 lru_after_130 = Inr (- 1, lru_after_130)"
proof -
  have h: "map_of (cacheMap lru_after_130) 5 = None" by code_simp
  from get_miss_changes_nothing [OF h] h show ?thesis by simp
qed

text \<open>
  C9.  First part: in a state reached from a fresh cache of capacity at least 1, whenever
  \<^verbatim>\<open>put\<close> takes the eviction branch (key absent, size not below capacity),
  \<^verbatim>\<open>remove_last\<close> returns a non-null pointer to a live node, the release of that node
  succeeds, and the whole \<^verbatim>\<open>put\<close> completes without fault.  Second part: with capacity
  0 the first \<^verbatim>\<open>put\<close> on the fresh cache takes the eviction branch with an empty list,
  \<^verbatim>\<open>remove_last\<close> returns null, and the read of \<^verbatim>\<open>lruNode->key\<close> dereferences it.
\<close>

theorem eviction_finds_a_node:
  "(1 \<le> sint cap \<and> session cap ops = Inr s \<and> map_of (cacheMap s) k = None \<and>
      size_t_of_int (capacity s) \<le> int (length (cacheMap s)) \<longrightarrow>
      (\<exists>lruNode h1 n h2 s'.
         remove_last (cacheList s) (heap s) = Inr (lruNode, h1) \<and> lruNode \<noteq> Null \<and>
         load h1 lruNode = Inr n \<and> delete_node lruNode h1 = Inr h2 \<and>
         put k v s = Inr s')) \<and>
   (\<exists>s0. LRU_CACHE 0 = Inr s0 \<and> map_of (cacheMap s0) k = None \<and>
      size_t_of_int (capacity s0) \<le> int (length (cacheMap s0)) \<and>
      remove_last (cacheList s0) (heap s0) = Inr (Null, heap s0) \<and>
      put k v s0 = Inl Null_Dereference)"
proof (intro conjI impI)
  assume a: "1 \<le> sint cap \<and> session cap ops = Inr s \<and> map_of (cacheMap s) k = None \<and>
      size_t_of_int (capacity s) \<le> int (length (cacheMap s))"
  then have "cap \<noteq> 0" by auto
  from session_inv [OF this, of ops] a obtain es where
    inv: "cache_inv s es" and cap: "capacity s = cap"
    by auto
  from a cap have "size_t_of_int (capacity s) = sint cap" by (simp add: size_t_of_int_nonneg)
  with a cache_inv_size [OF inv] have "es \<noteq> []" by auto
  then obtain es0 e where "es = es0 @ [e]" by (metis append_butlast_last_id)
  then obtain q kq vq where es: "es = es0 @ [(q, kq, vq)]" by (cases e) auto
  from inv have "list_inv (heap s) (cacheList s) (map fst es0 @ [q])"
    and e0: "entry (heap s) q = Some (kq, vq)"
    by (simp_all add: cache_inv_def es)
  from remove_last_list [OF this(1)] obtain h1 where h1:
    "remove_last (cacheList s) (heap s) = Inr (q, h1)" "\<forall>r. entry h1 r = entry (heap s) r"
    by blast
  from e0 h1(2) have e1: "entry h1 q = Some (kq, vq)" by simp
  then obtain n where n: "load h1 q = Inr n" by (auto dest: entry_valid)
  then have "q \<noteq> Null" by auto
  from delete_node_spec [OF e1] obtain h2 where h2: "delete_node q h1 = Inr h2" by blast
  from \<open>cap \<noteq> 0\<close> cap have "capacity s \<noteq> 0" by simp
  from exec_refines [OF inv this, of "Put k v"] obtain s' where "put k v s = Inr s'" by auto
  with h1(1) \<open>q \<noteq> Null\<close> n h2 show "\<exists>lruNode h1 n h2 s'.
         remove_last (cacheList s) (heap s) = Inr (lruNode, h1) \<and> lruNode \<noteq> Null \<and>
         load h1 lruNode = Inr n \<and> delete_node lruNode h1 = Inr h2 \<and>
         put k v s = Inr s'"
    by blast
next
  from LRU_CACHE_init [of 0] obtain s0 where s0:
    "LRU_CACHE 0 = Inr s0" "capacity s0 = 0" "cacheMap s0 = []" "cache_inv s0 []"
    by blast
  from s0(4) have "list_inv (heap s0) (cacheList s0) []" by (simp add: cache_inv_def)
  then have rl: "remove_last (cacheList s0) (heap s0) = Inr (Null, heap s0)"
    by (rule remove_last_empty)
  have sz: "size_t_of_int (capacity s0) \<le> int (length (cacheMap s0))"
    by (simp add: s0 size_t_of_int_def)
  have "put_evict s0 = Inl Null_Dereference" using s0(4) by (rule put_evict_empty)
  with sz s0(3) have "put k v s0 = Inl Null_Dereference" by (simp add: put_def)
  with s0 rl sz show "\<exists>s0. LRU_CACHE 0 = Inr s0 \<and> map_of (cacheMap s0) k = None \<and>
      size_t_of_int (capacity s0) \<le> int (length (cacheMap s0)) \<and>
      remove_last (cacheList s0) (heap s0) = Inr (Null, heap s0) \<and>
      put k v s0 = Inl Null_Dereference"
    by (intro exI [of _ s0]) simp
qed

theorem eviction_finds_a_node_witness:
  "(1 \<le> sint (2 :: i32) \<and> session 2 [Put 1 10, Put 2 20] = Inr lru_after_130 \<and>
    map_of (cacheMap lru_after_130) 3 = None \<and>
    size_t_of_int (capacity lru_after_130) \<le> int (length (cacheMap lru_after_130))) \<and>
   (\<exists>lruNode h1 n h2 s'.
      remove_last (cacheList lru_after_130) (heap lru_after_130) = Inr (lruNode, h1) \<and>
      lruNode \<noteq> Null \<and> load h1 lruNode = Inr n \<and> delete_node lruNode h1 = Inr h2 \<and>
      put 3 30 lru_after_130 = Inr s')"
proof -
  have h: "1 \<le> sint (2 :: i32) \<and> session 2 [Put 1 10, Put 2 20] = Inr lru_after_130 \<and>
    map_of (cacheMap lru_after_130) 3 = None \<and>
    size_t_of_int (capacity lru_after_130) \<le> int (length (cacheMap lru_after_130))"
    by code_simp
  from eviction_finds_a_node [of 2 "[Put 1 10, Put 2 20]" lru_after_130 3 30] h
  show ?thesis by blast
qed

text \<open>
  C10.  The miss indicator is the ordinary value -1.  \<^verbatim>\<open>get\<close> of an absent key
  returns -1 and changes nothing.  In a well-formed cache of non-zero capacity,
  \<^verbatim>\<open>put(k, -1)\<close> stores the value: afterwards \<open>k\<close> is in the map, the map sends it to
  the node \<open>p\<close> at the front of the recency order, and that node holds the key \<open>k\<close> and
  the value -1.  The following \<^verbatim>\<open>get(k)\<close> is a hit, leaves \<open>k\<close> in the map, and returns
  the stored -1, the very value a miss returns, so the return value alone does not tell a
  stored -1 from a miss.
\<close>

theorem miss_indicator_in_band:
  "(map_of (cacheMap s) k = None \<longrightarrow> get k s = Inr (- 1, s)) \<and>
   (cache_inv s es \<and> capacity s \<noteq> 0 \<longrightarrow>
      (\<exists>s' p es' s''.
         put k (- 1) s = Inr s' \<and> cache_inv s' ((p, k, - 1) # es') \<and>
         present k s' \<and> map_of (cacheMap s') k = Some p \<and>
         get_key p (heap s') = Inr k \<and> get_value p (heap s') = Inr (- 1) \<and>
         get k s' = Inr (- 1, s'') \<and> present k s'' \<and> cacheMap s'' = cacheMap s'))"
proof (intro conjI impI)
  assume "map_of (cacheMap s) k = None"
  then show "get k s = Inr (- 1, s)" by (simp add: get_def)
next
  assume a: "cache_inv s es \<and> capacity s \<noteq> 0"
  then have inv: "cache_inv s es" and nz: "capacity s \<noteq> 0" by simp_all
  from exec_refines [OF inv nz, of "Put k (- 1)"] obtain s' es0 where s':
    "put k (- 1) s = Inr s'" "cache_inv s' es0"
    "map snd es0 = model_exec (capacity s) (Put k (- 1)) (map snd es)"
    by auto
  from s'(3) obtain rest where "map snd es0 = (k, - 1) # rest"
    by (auto simp: touch_def split: if_splits)
  then obtain p es' where es0: "es0 = (p, k, - 1) # es'" by (cases es0) auto
  with s'(2) have inv': "cache_inv s' ((p, k, - 1) # es')" by simp
  have "(p, k, - 1) \<in> set ((p, k, - 1) # es')" by simp
  with cache_inv_find [OF inv', of k p] have f: "map_of (cacheMap s') k = Some p" by blast
  then have pr: "present k s'" by (simp add: present_def)
  from inv' have e: "entry (heap s') p = Some (k, - 1)" by (simp add: cache_inv_def)
  then have gk: "get_key p (heap s') = Inr k" and gv: "get_value p (heap s') = Inr (- 1)"
    by (rule entry_get_key, rule entry_get_value)
  from inv' have "cache_inv s' ([] @ (p, k, - 1) # es')" by simp
  from get_hit_inv [OF this] obtain h' where g: "get k s' = Inr (- 1, s'\<lparr>heap := h'\<rparr>)"
    by blast
  from pr have pr'': "present k (s'\<lparr>heap := h'\<rparr>)" by (simp add: present_def)
  have same: "cacheMap (s'\<lparr>heap := h'\<rparr>) = cacheMap s'" by simp
  from s'(1) inv' pr f gk gv g pr'' same
  show "\<exists>s' p es' s''.
         put k (- 1) s = Inr s' \<and> cache_inv s' ((p, k, - 1) # es') \<and>
         present k s' \<and> map_of (cacheMap s') k = Some p \<and>
         get_key p (heap s') = Inr k \<and> get_value p (heap s') = Inr (- 1) \<and>
         get k s' = Inr (- 1, s'') \<and> present k s'' \<and> cacheMap s'' = cacheMap s'"
    by (intro exI [of _ s'] exI [of _ p] exI [of _ es'] exI [of _ "s'\<lparr>heap := h'\<rparr>"] conjI)
qed

theorem miss_indicator_in_band_witness:
  "map_of (cacheMap lru_after_130) 7 = None \<and>
   cache_inv lru_after_130 [(Ptr 3, 2, 20), (Ptr 2, 1, 10)] \<and> capacity lru_after_130 \<noteq> 0 \<and>
   get 7 lru_after_130 = Inr (- 1, lru_after_130) \<and>
   (\<exists>s' p s''. put 7 (- 1) lru_after_130 = Inr s' \<and> present 7 s' \<and>
      map_of (cacheMap s') 7 = Some p \<and> get_value p (heap s') = Inr (- 1) \<and>
      get 7 s' = Inr (- 1, s'') \<and> present 7 s'') \<and>
   (\<exists>s' p s''. put 1 (- 1) lru_after_130 = Inr s' \<and> present 1 s' \<and>
      map_of (cacheMap s') 1 = Some p \<and> get_value p (heap s') = Inr (- 1) \<and>
      get 1 s' = Inr (- 1, s'') \<and> present 1 s'')"
proof -
  have h1: "map_of (cacheMap lru_after_130) 7 = None" by code_simp
  have h2: "cache_inv lru_after_130 [(Ptr 3, 2, 20), (Ptr 2, 1, 10)]" by code_simp
  have h3: "capacity lru_after_130 \<noteq> 0" by (simp add: lru_after_130_def)
  note t7 = miss_indicator_in_band [of lru_after_130 7 "[(Ptr 3, 2, 20), (Ptr 2, 1, 10)]"]
  note t1 = miss_indicator_in_band [of lru_after_130 1 "[(Ptr 3, 2, 20), (Ptr 2, 1, 10)]"]
  from t7 have "map_of (cacheMap lru_after_130) 7 = None \<longrightarrow>
      get 7 lru_after_130 = Inr (- 1, lru_after_130)"
    by (rule conjunct1)
  with h1 have a: "get 7 lru_after_130 = Inr (- 1, lru_after_130)" by (rule rev_mp)
  from t7 h2 h3 have b: "\<exists>s' p s''. put 7 (- 1) lru_after_130 = Inr s' \<and> present 7 s' \<and>
      map_of (cacheMap s') 7 = Some p \<and> get_value p (heap s') = Inr (- 1) \<and>
      get 7 s' = Inr (- 1, s'') \<and> present 7 s''"
    by blast
  from t1 h2 h3 have c: "\<exists>s' p s''. put 1 (- 1) lru_after_130 = Inr s' \<and> present 1 s' \<and>
      map_of (cacheMap s') 1 = Some p \<and> get_value p (heap s') = Inr (- 1) \<and>
      get 1 s' = Inr (- 1, s'') \<and> present 1 s''"
    by blast
  from h1 h2 h3 a b c show ?thesis by (intro conjI)
qed

end
